theory Spec2Isabelle
  imports Main
begin

section \<open>Scores\<close>

text \<open>
  A score is a Python number: the integer computed by \<open>evaluate_board\<close>, or one of the
  floats \<open>float('inf')\<close> and \<open>float('-inf')\<close>. Python compares an integer with an
  infinite float exactly, so the comparisons of the source are those of the linear order
  below, and \<open>max\<close> and \<open>min\<close> are the order's.
\<close>

datatype score = MInf | Fin int | PInf

instantiation score :: linorder
begin

fun less_eq_score :: "score \<Rightarrow> score \<Rightarrow> bool" where
  "less_eq_score MInf y = True"
| "less_eq_score (Fin a) MInf = False"
| "less_eq_score (Fin a) (Fin b) = (a \<le> b)"
| "less_eq_score (Fin a) PInf = True"
| "less_eq_score PInf PInf = True"
| "less_eq_score PInf y = False"

definition less_score :: "score \<Rightarrow> score \<Rightarrow> bool" where
  "less_score x y = (x \<le> y \<and> \<not> y \<le> x)"

instance
proof
  fix x y z :: score
  show "(x < y) = (x \<le> y \<and> \<not> y \<le> x)"
    by (simp add: less_score_def)
  show "x \<le> x"
    by (cases x) simp_all
  show "x \<le> y \<Longrightarrow> y \<le> z \<Longrightarrow> x \<le> z"
    by (cases x; cases y; cases z) simp_all
  show "x \<le> y \<Longrightarrow> y \<le> x \<Longrightarrow> x = y"
    by (cases x; cases y) simp_all
  show "x \<le> y \<or> y \<le> x"
    by (cases x; cases y) auto
qed

end

section \<open>Pieces, boards and the evaluator\<close>

text \<open>
  The board belongs to the Rules Engine (the \<open>chess\<close> library). The program reads
  three things from it directly: the pieces on the squares (\<open>board.pieces\<close>,
  \<open>board.piece_map\<close>), the side to move (\<open>board.turn\<close>), and nothing else. A board is
  therefore a record of the piece on each square (square \<open>i\<close> is cell \<open>i\<close>, a1 = 0,
  h8 = 63), the side to move, and whatever else the engine keeps (castling rights,
  clocks, the move stack), which the program never looks at.
\<close>

datatype color = White | Black

datatype piece_type = Pawn | Knight | Bishop | Rook | Queen | King

datatype piece = Piece (piece_type: piece_type) (color: color)

record 'x board =
  cells :: "piece option list"
  turn :: color
  engine_state :: 'x

text \<open>The dictionary \<open>piece_value\<close> and the list \<open>chess.PIECE_TYPES\<close>.\<close>

fun piece_value :: "piece_type \<Rightarrow> int" where
  "piece_value Pawn = 1"
| "piece_value Knight = 3"
| "piece_value Bishop = 3"
| "piece_value Rook = 5"
| "piece_value Queen = 9"
| "piece_value King = 0"

definition PIECE_TYPES :: "piece_type list" where
  "PIECE_TYPES = [Pawn, Knight, Bishop, Rook, Queen, King]"

text \<open>
  \<open>board.piece_map()\<close> is the dictionary from each occupied square to its piece, here
  the list of its items; \<open>board.pieces(piece_type, color)\<close> is the set of squares
  holding that piece, here the list of those squares, whose length is its \<open>len\<close>.
\<close>

fun occupied :: "nat \<Rightarrow> piece option list \<Rightarrow> (nat \<times> piece) list" where
  "occupied sq [] = []"
| "occupied sq (None # cs) = occupied (Suc sq) cs"
| "occupied sq (Some p # cs) = (sq, p) # occupied (Suc sq) cs"

definition piece_map :: "'x board \<Rightarrow> (nat \<times> piece) list" where
  "piece_map b = occupied 0 (cells b)"

definition pieces :: "'x board \<Rightarrow> piece_type \<Rightarrow> color \<Rightarrow> nat list" where
  "pieces b pt c = map fst (filter (\<lambda>(sq, p). p = Piece pt c) (piece_map b))"

text \<open>\<open>evaluate_board\<close>: the two loops of the source, each a fold over what it iterates.\<close>

definition evaluate_board :: "'x board \<Rightarrow> int" where
  "evaluate_board b =
    (let score = fold (\<lambda>piece score.
                   score + (int (length (pieces b piece Black))
                            - int (length (pieces b piece White))) * 10)
                 PIECE_TYPES 0;
         material_value = fold (\<lambda>(square, piece) material_value.
                   if color piece = White then material_value + piece_value (piece_type piece)
                   else if color piece = Black then material_value - piece_value (piece_type piece)
                   else material_value)
                 (piece_map b) 0
     in score + material_value)"

section \<open>The Rules Engine\<close>

text \<open>
  What the search asks of the board, taken as a parameter: \<open>board.is_game_over()\<close>,
  \<open>board.is_checkmate()\<close>, the enumeration \<open>board.legal_moves\<close>, \<open>board.push(move)\<close> and
  \<open>board.pop()\<close>. The board is one mutable object; here \<open>push\<close> and \<open>pop\<close> return the
  board they leave behind. The two queries made inside the \<open>try\<close> block of \<open>minimax\<close>
  may raise: \<open>None\<close> stands for an exception. The legal moves are enumerated when the
  loop starts, in the engine's order; the source iterates over them while it pushes and
  pops, on a board that each iteration has restored.
\<close>

record ('x, 'm) rules =
  is_game_over :: "'x board \<Rightarrow> bool option"
  is_checkmate :: "'x board \<Rightarrow> bool"
  legal_moves :: "'x board \<Rightarrow> 'm list option"
  push :: "'x board \<Rightarrow> 'm \<Rightarrow> 'x board"
  pop :: "'x board \<Rightarrow> 'x board"

section \<open>The search\<close>

text \<open>
  The local variables of one call of \<open>minimax\<close> while it runs its loop. A loop returns
  the frame in which it ends (by exhausting the moves or by \<open>break\<close>), or \<open>None\<close> when
  an exception left it.
\<close>

record 'm frame =
  alpha :: score
  beta :: score
  best_score :: score
  best_move :: "'m option"

text \<open>
  \<open>minimax\<close> returns the pair of the source together with the board as the call leaves
  it. The pair \<open>(None, None)\<close> is the one the \<open>except\<close> branch returns. A recursive call
  never raises (it catches every exception itself); when it returns \<open>(None, None)\<close>, the
  caller has already run \<open>board.pop()\<close> when its comparison \<open>score > best_score\<close> raises
  a \<open>TypeError\<close>, which its own \<open>except\<close> branch turns into \<open>(None, None)\<close> again.

  The depth is a natural number: the driver passes 5 and the search is specified for
  depths from 0. In \<open>max_branch\<close>, \<open>max_loop\<close>, \<open>min_branch\<close> and \<open>min_loop\<close> the
  depth argument is the one passed on to the recursive calls, \<open>depth - 1\<close>.
  \<open>max_branch\<close> is the body of \<open>if maximizing_player:\<close> and \<open>max_loop\<close> its \<open>for\<close> loop
  over the moves that remain; \<open>min_branch\<close> and \<open>min_loop\<close> are those of \<open>else:\<close>.
\<close>

function (sequential) minimax :: "('x, 'm) rules \<Rightarrow> nat \<Rightarrow> 'x board \<Rightarrow> score \<Rightarrow> score \<Rightarrow> bool
                  \<Rightarrow> (score option \<times> 'm option) \<times> 'x board"
and max_branch :: "('x, 'm) rules \<Rightarrow> nat \<Rightarrow> 'x board \<Rightarrow> score \<Rightarrow> score
                  \<Rightarrow> 'm frame option \<times> 'x board"
and max_loop :: "('x, 'm) rules \<Rightarrow> nat \<Rightarrow> 'm list \<Rightarrow> 'x board \<Rightarrow> 'm frame
                  \<Rightarrow> 'm frame option \<times> 'x board"
and min_branch :: "('x, 'm) rules \<Rightarrow> nat \<Rightarrow> 'x board \<Rightarrow> score \<Rightarrow> score
                  \<Rightarrow> 'm frame option \<times> 'x board"
and min_loop :: "('x, 'm) rules \<Rightarrow> nat \<Rightarrow> 'm list \<Rightarrow> 'x board \<Rightarrow> 'm frame
                  \<Rightarrow> 'm frame option \<times> 'x board"
where
  "minimax R 0 b \<alpha> \<beta> maximizing_player = ((Some (Fin (evaluate_board b)), None), b)"
| "minimax R (Suc d) b \<alpha> \<beta> maximizing_player =
    (case is_game_over R b of
       None \<Rightarrow> ((None, None), b)
     | Some True \<Rightarrow> ((Some (Fin (evaluate_board b)), None), b)
     | Some False \<Rightarrow>
        (case (if maximizing_player then max_branch R d b \<alpha> \<beta> else min_branch R d b \<alpha> \<beta>) of
           (None, b') \<Rightarrow> ((None, None), b')
         | (Some f, b') \<Rightarrow> ((Some (best_score f), best_move f), b')))"
| "max_branch R d b \<alpha> \<beta> =
    (case legal_moves R b of
       None \<Rightarrow> (None, b)
     | Some ms \<Rightarrow>
         max_loop R d ms b \<lparr>alpha = MInf, beta = \<beta>, best_score = MInf, best_move = None\<rparr>)"
| "max_loop R d [] b f = (Some f, b)"
| "max_loop R d (move # ms) b f =
    (case minimax R d (push R b move) (alpha f) (beta f) False of
       ((score, _), b1) \<Rightarrow>
         (let b2 = pop R b1 in
          case score of
            None \<Rightarrow> (None, b2)
          | Some sc \<Rightarrow>
              if sc > best_score f then
                (let f' = f\<lparr>best_score := sc, best_move := Some move,
                             alpha := max (alpha f) sc\<rparr>
                 in if alpha f' \<ge> beta f' then (Some f', b2) else max_loop R d ms b2 f')
              else max_loop R d ms b2 f))"
| "min_branch R d b \<alpha> \<beta> =
    (case legal_moves R b of
       None \<Rightarrow> (None, b)
     | Some ms \<Rightarrow>
         min_loop R d ms b \<lparr>alpha = \<alpha>, beta = PInf, best_score = PInf, best_move = None\<rparr>)"
| "min_loop R d [] b f = (Some f, b)"
| "min_loop R d (move # ms) b f =
    (case minimax R d (push R b move) (alpha f) (beta f) True of
       ((score, _), b1) \<Rightarrow>
         (let b2 = pop R b1 in
          case score of
            None \<Rightarrow> (None, b2)
          | Some sc \<Rightarrow>
              if sc < best_score f then
                (let f' = f\<lparr>best_score := sc, best_move := Some move,
                             beta := min (beta f) sc\<rparr>
                 in if alpha f' \<ge> beta f' then (Some f', b2) else min_loop R d ms b2 f')
              else min_loop R d ms b2 f))"
  by pat_completeness auto

text \<open>
  Termination: a call at \<open>depth\<close> reaches its branch and loop at \<open>depth - 1\<close>, a branch
  its loop, and a loop the recursive call of the same depth and the loop over the moves
  that remain.
\<close>

termination
  by (relation "measures
        [case_sum (case_sum (\<lambda>(R, d, _). d) (\<lambda>(R, d, _). d))
           (case_sum (\<lambda>(R, d, _). d) (case_sum (\<lambda>(R, d, _). d) (\<lambda>(R, d, _). d))),
         case_sum (case_sum (\<lambda>_. 0) (\<lambda>_. 2))
           (case_sum (\<lambda>_. 1) (case_sum (\<lambda>_. 2) (\<lambda>_. 1))),
         case_sum (case_sum (\<lambda>_. 0) (\<lambda>_. 0))
           (case_sum (\<lambda>(R, d, ms, _). length ms)
              (case_sum (\<lambda>_. 0) (\<lambda>(R, d, ms, _). length ms)))]")
     auto

section \<open>The move selector\<close>

text \<open>
  \<open>initial_window\<close> is the \<open>if board.turn == chess.BLACK: ... else: ...\<close> of
  \<open>find_best_move\<close>: the flag \<open>maximizing_player\<close> and the seeds of \<open>alpha\<close> and \<open>beta\<close>.
  \<open>search\<close> is the call of \<open>minimax\<close> that follows it.
\<close>

definition initial_window :: "color \<Rightarrow> bool \<times> score \<times> score" where
  "initial_window t = (if t = Black then (True, MInf, PInf) else (False, PInf, MInf))"

definition search :: "('x, 'm) rules \<Rightarrow> 'x board \<Rightarrow> nat
                        \<Rightarrow> (score option \<times> 'm option) \<times> 'x board" where
  "search R b depth =
    (case initial_window (turn b) of
       (maximizing_player, \<alpha>, \<beta>) \<Rightarrow> minimax R depth b \<alpha> \<beta> maximizing_player)"

definition find_best_move :: "('x, 'm) rules \<Rightarrow> 'x board \<Rightarrow> nat
                        \<Rightarrow> (score option \<times> 'm option) \<times> 'x board" where
  "find_best_move R b depth =
    (case search R b depth of
       ((score, move), b') \<Rightarrow>
         if move = None \<and> is_checkmate R b' then
           (if turn b' = White then ((Some MInf, None), b') else ((Some PInf, None), b'))
         else ((score, move), b'))"

section \<open>The specification's formulations, for comparison\<close>

text \<open>
  The evaluator as the specification words it: a piece-count differential, summed over
  the piece kinds with weight 10, plus a material-value differential, summed over the
  pieces on the board. The count of a kind for a side is the number of squares that hold
  such a piece.
\<close>

definition count_of_kind :: "'x board \<Rightarrow> piece_type \<Rightarrow> color \<Rightarrow> nat" where
  "count_of_kind b pt c = count_list (cells b) (Some (Piece pt c))"

definition pieces_on :: "'x board \<Rightarrow> piece list" where
  "pieces_on b = concat (map (\<lambda>cell. case cell of None \<Rightarrow> [] | Some p \<Rightarrow> [p]) (cells b))"

definition piece_count_differential :: "'x board \<Rightarrow> int" where
  "piece_count_differential b =
    (\<Sum>pt\<leftarrow>PIECE_TYPES. (int (count_of_kind b pt Black) - int (count_of_kind b pt White)) * 10)"

definition material_value_differential :: "'x board \<Rightarrow> int" where
  "material_value_differential b =
    (\<Sum>p\<leftarrow>pieces_on b. if color p = White then piece_value (piece_type p)
                       else - piece_value (piece_type p))"

text \<open>The position with the two sides swapped: every piece recoloured.\<close>

fun recolor :: "piece \<Rightarrow> piece" where
  "recolor (Piece pt c) = Piece pt (if c = White then Black else White)"

definition swap_sides :: "'x board \<Rightarrow> 'x board" where
  "swap_sides b = b\<lparr>cells := map (map_option recolor) (cells b)\<rparr>"

text \<open>
  Brute-force minimax without pruning: same depth, same evaluator, same enumeration of
  the moves; the value of a position is the maximum (minimum) of the values of the
  positions its moves lead to. A failure of the Rules Engine anywhere in the tree is
  \<open>None\<close>.
\<close>

fun plain_minimax :: "('x, 'm) rules \<Rightarrow> nat \<Rightarrow> 'x board \<Rightarrow> bool \<Rightarrow> score option" where
  "plain_minimax R 0 b maximizing_player = Some (Fin (evaluate_board b))"
| "plain_minimax R (Suc d) b maximizing_player =
    (case is_game_over R b of
       None \<Rightarrow> None
     | Some True \<Rightarrow> Some (Fin (evaluate_board b))
     | Some False \<Rightarrow>
        (case legal_moves R b of
           None \<Rightarrow> None
         | Some ms \<Rightarrow>
            map_option
              (\<lambda>scores. if maximizing_player then fold max scores MInf else fold min scores PInf)
              (those (map (\<lambda>move. plain_minimax R d (push R b move) (\<not> maximizing_player)) ms))))"

text \<open>
  The loop of a maximizing call in the words of the claim about its bound. The bound it
  passes as \<open>alpha\<close> to every recursive call, together with the caller's \<open>beta\<close>, is the
  maximum of a starting bound \<open>\<alpha>0\<close> and the best score found so far; a move replaces the
  incumbent when its recursive score is strictly greater; and the loop stops as soon as
  the maximum of \<open>\<alpha>0\<close> and the new best score reaches \<open>beta\<close>. It returns what the call
  returns. \<open>min_with_bound\<close> is the mirror image for a minimizing call, with a starting
  bound \<open>\<beta>0\<close>. \<open>finish\<close> turns the frame a loop of the search ends in into the pair the
  call returns.
\<close>

fun max_with_bound :: "('x, 'm) rules \<Rightarrow> nat \<Rightarrow> score \<Rightarrow> score \<Rightarrow> 'm list \<Rightarrow> 'x board
      \<Rightarrow> score \<Rightarrow> 'm option \<Rightarrow> (score option \<times> 'm option) \<times> 'x board" where
  "max_with_bound R d \<alpha>0 \<beta> [] b best mv = ((Some best, mv), b)"
| "max_with_bound R d \<alpha>0 \<beta> (move # ms) b best mv =
    (case minimax R d (push R b move) (max \<alpha>0 best) \<beta> False of
       ((None, _), b1) \<Rightarrow> ((None, None), pop R b1)
     | ((Some sc, _), b1) \<Rightarrow>
         if best < sc then
           (if \<beta> \<le> max \<alpha>0 sc then ((Some sc, Some move), pop R b1)
            else max_with_bound R d \<alpha>0 \<beta> ms (pop R b1) sc (Some move))
         else max_with_bound R d \<alpha>0 \<beta> ms (pop R b1) best mv)"

fun min_with_bound :: "('x, 'm) rules \<Rightarrow> nat \<Rightarrow> score \<Rightarrow> score \<Rightarrow> 'm list \<Rightarrow> 'x board
      \<Rightarrow> score \<Rightarrow> 'm option \<Rightarrow> (score option \<times> 'm option) \<times> 'x board" where
  "min_with_bound R d \<alpha> \<beta>0 [] b best mv = ((Some best, mv), b)"
| "min_with_bound R d \<alpha> \<beta>0 (move # ms) b best mv =
    (case minimax R d (push R b move) \<alpha> (min \<beta>0 best) True of
       ((None, _), b1) \<Rightarrow> ((None, None), pop R b1)
     | ((Some sc, _), b1) \<Rightarrow>
         if sc < best then
           (if min \<beta>0 sc \<le> \<alpha> then ((Some sc, Some move), pop R b1)
            else min_with_bound R d \<alpha> \<beta>0 ms (pop R b1) sc (Some move))
         else min_with_bound R d \<alpha> \<beta>0 ms (pop R b1) best mv)"

definition finish :: "'m frame option \<times> 'x board \<Rightarrow> (score option \<times> 'm option) \<times> 'x board" where
  "finish r = (case r of (None, b') \<Rightarrow> ((None, None), b')
                       | (Some f, b') \<Rightarrow> ((Some (best_score f), best_move f), b'))"

section \<open>What the search needs of the Rules Engine\<close>

text \<open>
  \<open>rules_reliable\<close>: the engine's queries never raise, and a position that is not over
  has a legal move. \<open>push_pop_paired\<close>: \<open>pop\<close> undoes the \<open>push\<close> before it.
\<close>

definition rules_reliable :: "('x, 'm) rules \<Rightarrow> bool" where
  "rules_reliable R =
    ((\<forall>b. is_game_over R b \<noteq> None) \<and> (\<forall>b. legal_moves R b \<noteq> None) \<and>
     (\<forall>b. is_game_over R b = Some False \<longrightarrow> legal_moves R b \<noteq> Some []))"

definition push_pop_paired :: "('x, 'm) rules \<Rightarrow> bool" where
  "push_pop_paired R = (\<forall>b move. pop R (push R b move) = b)"

section \<open>A Rules Engine for concrete positions\<close>

text \<open>
  For concrete inputs the engine's answers at the positions used are tabulated. A move is
  the pair of its from-square and to-square; \<open>push\<close> saves the position on a stack and
  moves the piece, \<open>pop\<close> restores the position saved last. A table gives, for the
  pieces on the squares and the side to move, the answers of \<open>is_game_over\<close>,
  \<open>is_checkmate\<close> and \<open>legal_moves\<close>.
\<close>

type_synonym move = "nat \<times> nat"

type_synonym saved = "(piece option list \<times> color) list"

record answers =
  over :: "bool option"
  mate :: bool
  moves :: "move list option"

definition make_move :: "saved board \<Rightarrow> move \<Rightarrow> saved board" where
  "make_move b m =
    \<lparr>cells = (cells b)[snd m := cells b ! fst m, fst m := None],
     turn = (if turn b = White then Black else White),
     engine_state = (cells b, turn b) # engine_state b\<rparr>"

definition unmake_move :: "saved board \<Rightarrow> saved board" where
  "unmake_move b =
    (case engine_state b of
       [] \<Rightarrow> b
     | (cs, t) # st \<Rightarrow> \<lparr>cells = cs, turn = t, engine_state = st\<rparr>)"

definition table_rules :: "(piece option list \<Rightarrow> color \<Rightarrow> answers) \<Rightarrow> (saved, move) rules" where
  "table_rules tab =
    \<lparr>is_game_over = (\<lambda>b. over (tab (cells b) (turn b))),
     is_checkmate = (\<lambda>b. mate (tab (cells b) (turn b))),
     legal_moves = (\<lambda>b. moves (tab (cells b) (turn b))),
     push = make_move,
     pop = unmake_move\<rparr>"

abbreviation "oo \<equiv> (None :: piece option)"
abbreviation "WK \<equiv> Some (Piece King White)"
abbreviation "WQ \<equiv> Some (Piece Queen White)"
abbreviation "WP \<equiv> Some (Piece Pawn White)"
abbreviation "BK \<equiv> Some (Piece King Black)"
abbreviation "BQ \<equiv> Some (Piece Queen Black)"
abbreviation "BP \<equiv> Some (Piece Pawn Black)"

text \<open>
  Kings and one pawn each, FEN \<open>4k3/8/8/3p4/4P3/8/8/4K3\<close>: white king e1 (square 4)
  and pawn e4 (28), black pawn d5 (35) and king e8 (60). Rank 1 comes first.
\<close>

definition kp_cells :: "piece option list" where
  "kp_cells =
    [oo, oo, oo, oo, WK, oo, oo, oo,
     oo, oo, oo, oo, oo, oo, oo, oo,
     oo, oo, oo, oo, oo, oo, oo, oo,
     oo, oo, oo, oo, WP, oo, oo, oo,
     oo, oo, oo, BP, oo, oo, oo, oo,
     oo, oo, oo, oo, oo, oo, oo, oo,
     oo, oo, oo, oo, oo, oo, oo, oo,
     oo, oo, oo, oo, BK, oo, oo, oo]"

text \<open>
  White is checkmated, FEN \<open>8/8/8/8/8/6k1/6q1/7K w\<close>: white king h1 (7), black queen
  g2 (14) guarded by the black king g3 (22).
\<close>

definition mate_cells :: "piece option list" where
  "mate_cells =
    [oo, oo, oo, oo, oo, oo, oo, WK,
     oo, oo, oo, oo, oo, oo, BQ, oo,
     oo, oo, oo, oo, oo, oo, BK, oo,
     oo, oo, oo, oo, oo, oo, oo, oo,
     oo, oo, oo, oo, oo, oo, oo, oo,
     oo, oo, oo, oo, oo, oo, oo, oo,
     oo, oo, oo, oo, oo, oo, oo, oo,
     oo, oo, oo, oo, oo, oo, oo, oo]"

text \<open>
  Black is stalemated, FEN \<open>7k/8/6Q1/8/8/8/8/K7 b\<close>: white king a1 (0) and queen g6
  (46), black king h8 (63).
\<close>

definition stale_cells :: "piece option list" where
  "stale_cells =
    [WK, oo, oo, oo, oo, oo, oo, oo,
     oo, oo, oo, oo, oo, oo, oo, oo,
     oo, oo, oo, oo, oo, oo, oo, oo,
     oo, oo, oo, oo, oo, oo, oo, oo,
     oo, oo, oo, oo, oo, oo, oo, oo,
     oo, oo, oo, oo, oo, oo, WQ, oo,
     oo, oo, oo, oo, oo, oo, oo, oo,
     oo, oo, oo, oo, oo, oo, oo, BK]"

text \<open>
  The engine's answers at these positions. With white to move in the first, the legal
  moves are the king's to f2, e2, d2, f1, d1, then the pawn's capture on d5 and its
  advance to e5; with black to move, the king's to f8, d8, f7, e7, d7, then the pawn's
  capture on e4 and its advance to d4. Every other position is answered as over; the
  theorems below stop before they ask.
\<close>

definition chess_table :: "piece option list \<Rightarrow> color \<Rightarrow> answers" where
  "chess_table cs t =
    (if cs = kp_cells \<and> t = White then
       \<lparr>over = Some False, mate = False,
        moves = Some [(4, 13), (4, 12), (4, 11), (4, 5), (4, 3), (28, 35), (28, 36)]\<rparr>
     else if cs = kp_cells \<and> t = Black then
       \<lparr>over = Some False, mate = False,
        moves = Some [(60, 61), (60, 59), (60, 53), (60, 52), (60, 51), (35, 28), (35, 27)]\<rparr>
     else if cs = mate_cells \<and> t = White then
       \<lparr>over = Some True, mate = True, moves = Some []\<rparr>
     else \<lparr>over = Some True, mate = False, moves = Some []\<rparr>)"

text \<open>The same engine, failing on every position but the first with black to move.\<close>

definition faulty_table :: "piece option list \<Rightarrow> color \<Rightarrow> answers" where
  "faulty_table cs t =
    (if cs = kp_cells \<and> t = Black then chess_table cs t
     else \<lparr>over = None, mate = False, moves = None\<rparr>)"

definition kp_white :: "saved board" where
  "kp_white = \<lparr>cells = kp_cells, turn = White, engine_state = []\<rparr>"

definition kp_black :: "saved board" where
  "kp_black = \<lparr>cells = kp_cells, turn = Black, engine_state = []\<rparr>"

definition mated_white :: "saved board" where
  "mated_white = \<lparr>cells = mate_cells, turn = White, engine_state = []\<rparr>"

definition stalemated_black :: "saved board" where
  "stalemated_black = \<lparr>cells = stale_cells, turn = Black, engine_state = []\<rparr>"

text \<open>
  A frame is settled when its loop has taken a move with a finite score: \<open>best_score\<close>
  is a number and \<open>best_move\<close> is a move.
\<close>

definition settled :: "'m frame \<Rightarrow> bool" where
  "settled f = ((case best_score f of Fin n \<Rightarrow> True | _ \<Rightarrow> False) \<and> best_move f \<noteq> None)"

section \<open>Facts about scores\<close>

lemma score_less_simps [simp]:
  "MInf < Fin a" "Fin a < PInf" "MInf < PInf" "(Fin a < Fin b) = (a < b)"
  "\<not> x < MInf" "\<not> PInf < x"
  by (cases x; simp add: less_le)+

lemma score_le_extremes [simp]: "MInf \<le> x" "x \<le> PInf"
  by (cases x; simp)+

section \<open>The evaluator\<close>

lemma fold_add_sum_list:
  "fold (\<lambda>x (acc::int). acc + f x) xs a = a + sum_list (map f xs)"
  by (induction xs arbitrary: a) simp_all

lemma length_filter_occupied:
  "length (filter (\<lambda>(sq, p). p = q) (occupied n cs)) = count_list cs (Some q)"
proof (induction cs arbitrary: n)
  case Nil
  show ?case by simp
next
  case (Cons c cs)
  then show ?case by (cases c) simp_all
qed

lemma length_pieces: "length (pieces b pt c) = count_of_kind b pt c"
  by (simp add: pieces_def piece_map_def count_of_kind_def length_filter_occupied)

lemma map_snd_occupied:
  "map snd (occupied n cs) = concat (map (\<lambda>cell. case cell of None \<Rightarrow> [] | Some p \<Rightarrow> [p]) cs)"
proof (induction cs arbitrary: n)
  case Nil
  show ?case by simp
next
  case (Cons c cs)
  then show ?case by (cases c) simp_all
qed

lemma fold_material:
  "fold (\<lambda>(square, piece) material_value.
          if color piece = White then material_value + piece_value (piece_type piece)
          else if color piece = Black then material_value - piece_value (piece_type piece)
          else material_value) xs a
   = a + (\<Sum>p\<leftarrow>map snd xs. if color p = White then piece_value (piece_type p)
                                else - piece_value (piece_type p))"
proof (induction xs arbitrary: a)
  case Nil
  show ?case by simp
next
  case (Cons x xs)
  obtain sq p where x: "x = (sq, p)" by (cases x)
  have "color p = White \<or> color p = Black" by (cases "color p") simp_all
  with Cons x show ?case by auto
qed

lemma evaluate_board_sum:
  "evaluate_board b = piece_count_differential b + material_value_differential b"
  by (simp add: evaluate_board_def piece_count_differential_def material_value_differential_def
      fold_add_sum_list fold_material length_pieces piece_map_def pieces_on_def map_snd_occupied)

lemma count_list_recolor:
  "count_list (map (map_option recolor) cs) (Some (Piece pt c))
   = count_list cs (Some (Piece pt (if c = White then Black else White)))"
proof (induction cs)
  case Nil
  show ?case by simp
next
  case (Cons x cs)
  show ?case
  proof (cases x)
    case None
    with Cons show ?thesis by simp
  next
    case (Some p)
    obtain pt' c' where p: "p = Piece pt' c'" by (cases p)
    from Cons Some p show ?thesis by (cases c; cases c') simp_all
  qed
qed

lemma count_of_kind_swap:
  "count_of_kind (swap_sides b) pt Black = count_of_kind b pt White"
  "count_of_kind (swap_sides b) pt White = count_of_kind b pt Black"
  by (simp_all add: count_of_kind_def swap_sides_def count_list_recolor)

lemma piece_count_differential_swap:
  "piece_count_differential (swap_sides b) = - piece_count_differential b"
  by (simp add: piece_count_differential_def PIECE_TYPES_def count_of_kind_swap)

lemma pieces_on_swap: "pieces_on (swap_sides b) = map recolor (pieces_on b)"
proof -
  have "concat (map (\<lambda>cell. case cell of None \<Rightarrow> [] | Some p \<Rightarrow> [p]) (map (map_option recolor) cs))
        = map recolor (concat (map (\<lambda>cell. case cell of None \<Rightarrow> [] | Some p \<Rightarrow> [p]) cs))" for cs
    by (induction cs) (auto split: option.splits)
  then show ?thesis by (simp add: pieces_on_def swap_sides_def)
qed

lemma material_recolor:
  "(\<Sum>p\<leftarrow>map recolor ps. if color p = White then piece_value (piece_type p)
                            else - piece_value (piece_type p))
   = - (\<Sum>p\<leftarrow>ps. if color p = White then piece_value (piece_type p)
                     else - piece_value (piece_type p))"
proof (induction ps)
  case Nil
  show ?case by simp
next
  case (Cons p ps)
  obtain pt c where "p = Piece pt c" by (cases p)
  with Cons show ?case by (cases c) simp_all
qed

lemma material_value_differential_swap:
  "material_value_differential (swap_sides b) = - material_value_differential b"
  by (simp only: material_value_differential_def pieces_on_swap material_recolor)

lemma piece_value_cases:
  "piece_value pt =
     (case pt of Pawn \<Rightarrow> 1 | Knight \<Rightarrow> 3 | Bishop \<Rightarrow> 3 | Rook \<Rightarrow> 5 | Queen \<Rightarrow> 9 | King \<Rightarrow> 0)"
  by (cases pt) simp_all

text \<open>
  Claim C7. For every position, \<open>evaluate_board\<close> is the sum of two terms: the
  piece-count differential (for each piece kind, the count for black minus the count for
  white, times 10) and the material-value differential (for each piece on the board its
  value, pawn 1, knight 3, bishop 3, rook 5, queen 9, king 0, added for a white piece and
  subtracted for a black one). The kinds, the weight and the values are written out.
\<close>

theorem evaluate_board_two_terms:
  "evaluate_board b =
     (\<Sum>pt\<leftarrow>[Pawn, Knight, Bishop, Rook, Queen, King].
         (int (count_of_kind b pt Black) - int (count_of_kind b pt White)) * 10)
     + (\<Sum>p\<leftarrow>pieces_on b.
         if color p = White
         then (case piece_type p of Pawn \<Rightarrow> 1 | Knight \<Rightarrow> 3 | Bishop \<Rightarrow> 3
                                    | Rook \<Rightarrow> 5 | Queen \<Rightarrow> 9 | King \<Rightarrow> 0)
         else - (case piece_type p of Pawn \<Rightarrow> 1 | Knight \<Rightarrow> 3 | Bishop \<Rightarrow> 3
                                      | Rook \<Rightarrow> 5 | Queen \<Rightarrow> 9 | King \<Rightarrow> 0))"
proof -
  have "piece_count_differential b =
      (\<Sum>pt\<leftarrow>[Pawn, Knight, Bishop, Rook, Queen, King].
         (int (count_of_kind b pt Black) - int (count_of_kind b pt White)) * 10)"
    by (simp only: piece_count_differential_def PIECE_TYPES_def)
  moreover have "material_value_differential b =
      (\<Sum>p\<leftarrow>pieces_on b.
         if color p = White
         then (case piece_type p of Pawn \<Rightarrow> 1 | Knight \<Rightarrow> 3 | Bishop \<Rightarrow> 3
                                    | Rook \<Rightarrow> 5 | Queen \<Rightarrow> 9 | King \<Rightarrow> 0)
         else - (case piece_type p of Pawn \<Rightarrow> 1 | Knight \<Rightarrow> 3 | Bishop \<Rightarrow> 3
                                      | Rook \<Rightarrow> 5 | Queen \<Rightarrow> 9 | King \<Rightarrow> 0))"
    unfolding material_value_differential_def
    by (simp only: piece_value_cases)
  ultimately show ?thesis
    by (simp only: evaluate_board_sum)
qed

text \<open>
  Claim C8. Swapping the sides (recolouring every piece) negates the evaluation: both
  differentials are antisymmetric.
\<close>

theorem evaluate_board_swap_sides:
  "evaluate_board (swap_sides b) = - evaluate_board b"
  by (simp add: evaluate_board_sum piece_count_differential_swap material_value_differential_swap)

section \<open>The base case of the search\<close>

text \<open>
  Claim C9. At depth 0 the search returns the evaluation of the position and no move,
  whatever the window and the flag, and whether the position is terminal or not; at any
  depth it returns the same for a position that is over. The board is the one it was
  given.
\<close>

theorem minimax_base_case:
  "minimax R 0 b \<alpha> \<beta> mx = ((Some (Fin (evaluate_board b)), None), b) \<and>
   (is_game_over R b = Some True \<longrightarrow>
      minimax R d b \<alpha> \<beta> mx = ((Some (Fin (evaluate_board b)), None), b))"
  by (cases d) simp_all

text \<open>The stalemate position, searched at depth 3.\<close>

theorem minimax_base_case_witness:
  "is_game_over (table_rules chess_table) stalemated_black = Some True \<and>
   minimax (table_rules chess_table) 3 stalemated_black MInf PInf True
     = ((Some (Fin (- 1)), None), stalemated_black)"
proof -
  have over: "is_game_over (table_rules chess_table) stalemated_black = Some True"
    by code_simp
  have ev: "evaluate_board stalemated_black = - 1"
    by code_simp
  from minimax_base_case [of "table_rules chess_table" stalemated_black MInf PInf True 3] over ev
  show ?thesis by simp
qed

section \<open>Undo integrity\<close>

text \<open>
  Every call, branch and loop of the search leaves the board as it found it, provided
  \<open>pop\<close> undoes \<open>push\<close>: by induction along the recursion of the search.
\<close>

lemma search_keeps_board:
  assumes "push_pop_paired R"
  shows "snd (minimax R d b \<alpha> \<beta> mx) = b"
    and "snd (max_branch R d b \<alpha> \<beta>) = b"
    and "snd (max_loop R d ms b f) = b"
    and "snd (min_branch R d b \<alpha> \<beta>) = b"
    and "snd (min_loop R d ms b f) = b"
  using assms
proof (induction R d b \<alpha> \<beta> mx and R d b \<alpha> \<beta> and R d ms b f and R d b \<alpha> \<beta> and R d ms b f
       rule: minimax_max_branch_max_loop_min_branch_min_loop.induct)
  case (1 R b \<alpha> \<beta> maximizing_player)
  show ?case by simp
next
  case (2 R d b \<alpha> \<beta> maximizing_player)
  then show ?case
    by (auto split: option.splits bool.splits prod.splits)
next
  case (3 R d b \<alpha> \<beta>)
  then show ?case by (auto split: option.splits)
next
  case (4 R d b f)
  show ?case by simp
next
  case (5 R d move ms b f)
  obtain sc mv b1 where r: "minimax R d (push R b move) (alpha f) (beta f) False = ((sc, mv), b1)"
    by (metis prod.exhaust)
  with "5" have b1: "b1 = push R b move" by simp
  with \<open>push_pop_paired R\<close> have undone: "pop R b1 = b" by (simp add: push_pop_paired_def)
  show ?case
  proof (cases sc)
    case None
    with r undone show ?thesis by simp
  next
    case (Some s)
    with "5" r undone show ?thesis
      by (auto simp: Let_def)
  qed
next
  case (6 R d b \<alpha> \<beta>)
  then show ?case by (auto split: option.splits)
next
  case (7 R d b f)
  show ?case by simp
next
  case (8 R d move ms b f)
  obtain sc mv b1 where r: "minimax R d (push R b move) (alpha f) (beta f) True = ((sc, mv), b1)"
    by (metis prod.exhaust)
  with "8" have b1: "b1 = push R b move" by simp
  with \<open>push_pop_paired R\<close> have undone: "pop R b1 = b" by (simp add: push_pop_paired_def)
  show ?case
  proof (cases sc)
    case None
    with r undone show ?thesis by simp
  next
    case (Some s)
    with "8" r undone show ?thesis
      by (auto simp: Let_def)
  qed
qed

lemma table_rules_paired: "push_pop_paired (table_rules tab)"
  by (simp add: push_pop_paired_def table_rules_def make_move_def unmake_move_def)

text \<open>
  Claim C6. After the search returns, the board is the one it was given, for every depth,
  window and flag, and for every way the call ends: the base case, the end of the loop, a
  cutoff, or the \<open>except\<close> branch. Every \<open>push\<close> is followed by its \<open>pop\<close> before anything
  can leave the loop; what is asked of the Rules Engine is that \<open>pop\<close> undoes \<open>push\<close>.
\<close>

theorem minimax_restores_board:
  assumes "push_pop_paired R"
  shows "snd (minimax R d b \<alpha> \<beta> mx) = b"
  using assms by (rule search_keeps_board(1))

text \<open>
  A search that ends in the \<open>except\<close> branch: at depth 2 the engine fails on the position
  after the first move, and the call returns \<open>(None, None)\<close> with the board restored.
\<close>

theorem minimax_restores_board_witness:
  "push_pop_paired (table_rules faulty_table) \<and>
   minimax (table_rules faulty_table) 2 kp_black MInf PInf True = ((None, None), kp_black)"
proof -
  have "fst (minimax (table_rules faulty_table) 2 kp_black MInf PInf True) = (None, None)"
    by code_simp
  moreover have "snd (minimax (table_rules faulty_table) 2 kp_black MInf PInf True) = kp_black"
    using table_rules_paired by (rule minimax_restores_board)
  ultimately show ?thesis
    using table_rules_paired by (simp add: prod_eq_iff)
qed

section \<open>A reliable engine gives finite scores\<close>

lemma settled_iff: "settled f = (\<exists>n m. best_score f = Fin n \<and> best_move f = Some m)"
  by (auto simp: settled_def split: score.splits)

lemma reliable_game_over:
  assumes "rules_reliable R"
  shows "\<exists>g. is_game_over R b = Some g"
  using assms by (auto simp: rules_reliable_def)

lemma reliable_legal_moves:
  assumes "rules_reliable R" and "is_game_over R b = Some False"
  shows "\<exists>m ms. legal_moves R b = Some (m # ms)"
proof -
  from assms have "legal_moves R b \<noteq> None" and ne: "legal_moves R b \<noteq> Some []"
    by (simp_all add: rules_reliable_def)
  then obtain xs where xs: "legal_moves R b = Some xs"
    by auto
  with ne have "xs \<noteq> []"
    by auto
  with xs show ?thesis
    by (cases xs) simp_all
qed

lemma reliable_search_finite:
  assumes "rules_reliable R"
  shows "\<exists>n mv. fst (minimax R d b \<alpha> \<beta> mx) = (Some (Fin n), mv) \<and>
                 (d \<noteq> 0 \<and> is_game_over R b = Some False \<longrightarrow> mv \<noteq> None)"
    and "is_game_over R b = Some False \<longrightarrow>
           (\<exists>f'. fst (max_branch R d b \<alpha> \<beta>) = Some f' \<and> settled f')"
    and "(ms \<noteq> [] \<and> best_score f = MInf) \<or> settled f \<longrightarrow>
           (\<exists>f'. fst (max_loop R d ms b f) = Some f' \<and> settled f')"
    and "is_game_over R b = Some False \<longrightarrow>
           (\<exists>f'. fst (min_branch R d b \<alpha> \<beta>) = Some f' \<and> settled f')"
    and "(ms \<noteq> [] \<and> best_score f = PInf) \<or> settled f \<longrightarrow>
           (\<exists>f'. fst (min_loop R d ms b f) = Some f' \<and> settled f')"
  using assms
proof (induction R d b \<alpha> \<beta> mx and R d b \<alpha> \<beta> and R d ms b f and R d b \<alpha> \<beta> and R d ms b f
       rule: minimax_max_branch_max_loop_min_branch_min_loop.induct)
  case (1 R b \<alpha> \<beta> maximizing_player)
  show ?case by simp
next
  case (2 R d b \<alpha> \<beta> maximizing_player)
  from reliable_game_over [OF \<open>rules_reliable R\<close>] obtain g where g: "is_game_over R b = Some g"
    by blast
  show ?case
  proof (cases g)
    case True
    with g show ?thesis by simp
  next
    case False
    show ?thesis
    proof (cases maximizing_player)
      case True
      with "2" g False obtain f' where "fst (max_branch R d b \<alpha> \<beta>) = Some f'" "settled f'"
        by auto
      with g False True show ?thesis
        by (cases "max_branch R d b \<alpha> \<beta>") (auto simp: settled_iff)
    next
      case mn: False
      with "2" g False obtain f' where "fst (min_branch R d b \<alpha> \<beta>) = Some f'" "settled f'"
        by auto
      with g False mn show ?thesis
        by (cases "min_branch R d b \<alpha> \<beta>") (auto simp: settled_iff)
    qed
  qed
next
  case (3 R d b \<alpha> \<beta>)
  show ?case
  proof
    assume g: "is_game_over R b = Some False"
    from reliable_legal_moves [OF \<open>rules_reliable R\<close> g]
    obtain ms where ms: "legal_moves R b = Some ms" "ms \<noteq> []"
      by auto
    with "3" show "\<exists>f'. fst (max_branch R d b \<alpha> \<beta>) = Some f' \<and> settled f'"
      by simp
  qed
next
  case (4 R d b f)
  show ?case by simp
next
  case (5 R d move ms b f)
  from "5.IH"(1) [OF "5.prems"] obtain n mv b1
    where r: "minimax R d (push R b move) (alpha f) (beta f) False = ((Some (Fin n), mv), b1)"
    by (cases "minimax R d (push R b move) (alpha f) (beta f) False") auto
  show ?case
  proof
    assume pre: "(move # ms \<noteq> [] \<and> best_score f = MInf) \<or> settled f"
    let ?f' = "f\<lparr>best_score := Fin n, best_move := Some move, alpha := max (alpha f) (Fin n)\<rparr>"
    have s': "settled ?f'" by (simp add: settled_iff)
    show "\<exists>f'. fst (max_loop R d (move # ms) b f) = Some f' \<and> settled f'"
    proof (cases "best_score f < Fin n")
      case True
      show ?thesis
      proof (cases "beta ?f' \<le> alpha ?f'")
        case True
        with \<open>best_score f < Fin n\<close> r s' show ?thesis by (auto simp: Let_def)
      next
        case False
        from "5.IH"(2) [OF r [symmetric] refl refl refl True refl False "5.prems"] s'
        obtain f'' where "fst (max_loop R d ms (pop R b1) ?f') = Some f''" "settled f''"
          by auto
        with True False r show ?thesis by (auto simp: Let_def)
      qed
    next
      case False
      with pre have sf: "settled f" by auto
      from "5.IH"(3) [OF r [symmetric] refl refl refl False "5.prems"] sf
      obtain f'' where "fst (max_loop R d ms (pop R b1) f) = Some f''" "settled f''"
        by auto
      with False r show ?thesis by (auto simp: Let_def)
    qed
  qed
next
  case (6 R d b \<alpha> \<beta>)
  show ?case
  proof
    assume g: "is_game_over R b = Some False"
    from reliable_legal_moves [OF \<open>rules_reliable R\<close> g]
    obtain ms where ms: "legal_moves R b = Some ms" "ms \<noteq> []"
      by auto
    with "6" show "\<exists>f'. fst (min_branch R d b \<alpha> \<beta>) = Some f' \<and> settled f'"
      by simp
  qed
next
  case (7 R d b f)
  show ?case by simp
next
  case (8 R d move ms b f)
  from "8.IH"(1) [OF "8.prems"] obtain n mv b1
    where r: "minimax R d (push R b move) (alpha f) (beta f) True = ((Some (Fin n), mv), b1)"
    by (cases "minimax R d (push R b move) (alpha f) (beta f) True") auto
  show ?case
  proof
    assume pre: "(move # ms \<noteq> [] \<and> best_score f = PInf) \<or> settled f"
    let ?f' = "f\<lparr>best_score := Fin n, best_move := Some move, beta := min (beta f) (Fin n)\<rparr>"
    have s': "settled ?f'" by (simp add: settled_iff)
    show "\<exists>f'. fst (min_loop R d (move # ms) b f) = Some f' \<and> settled f'"
    proof (cases "Fin n < best_score f")
      case True
      show ?thesis
      proof (cases "beta ?f' \<le> alpha ?f'")
        case True
        with \<open>Fin n < best_score f\<close> r s' show ?thesis by (auto simp: Let_def)
      next
        case False
        from "8.IH"(2) [OF r [symmetric] refl refl refl True refl False "8.prems"] s'
        obtain f'' where "fst (min_loop R d ms (pop R b1) ?f') = Some f''" "settled f''"
          by auto
        with True False r show ?thesis by (auto simp: Let_def)
      qed
    next
      case False
      with pre have sf: "settled f" by auto
      from "8.IH"(3) [OF r [symmetric] refl refl refl False "8.prems"] sf
      obtain f'' where "fst (min_loop R d ms (pop R b1) f) = Some f''" "settled f''"
        by auto
      with False r show ?thesis by (auto simp: Let_def)
    qed
  qed
qed


lemma table_rules_reliable: "rules_reliable (table_rules chess_table)"
  by (auto simp: rules_reliable_def table_rules_def chess_table_def)

section \<open>The move selector with white to move\<close>

text \<open>
  Claim C3. In a position that is not over, with white to move and a depth of at least 1,
  \<open>find_best_move\<close> returns the first move of the enumeration of the legal moves, with
  the score its recursive call returns. The search is seeded with \<open>alpha = inf\<close> and
  \<open>beta = -inf\<close>; the minimizing branch resets \<open>beta\<close> to \<open>inf\<close>, the score of the first
  move is finite and so improves on \<open>best_score\<close>, and the cutoff test \<open>alpha >= beta\<close>
  then holds at once. The engine is taken to be reliable, which is what makes every
  recursive score finite.
\<close>

theorem white_takes_first_move:
  assumes "rules_reliable R" and "turn b = White" and "is_game_over R b = Some False"
  shows "\<exists>move ms n. legal_moves R b = Some (move # ms) \<and>
           fst (fst (minimax R d (push R b move) PInf PInf True)) = Some (Fin n) \<and>
           fst (find_best_move R b (Suc d)) = (Some (Fin n), Some move)"
proof -
  from reliable_legal_moves [OF assms(1) assms(3)]
  obtain move ms where ms: "legal_moves R b = Some (move # ms)"
    by blast
  from reliable_search_finite(1) [OF assms(1)]
  obtain n mv b1 where r: "minimax R d (push R b move) PInf PInf True = ((Some (Fin n), mv), b1)"
    by (metis prod.exhaust_sel)
  have "search R b (Suc d) = ((Some (Fin n), Some move), pop R b1)"
    using assms(2,3) ms r by (simp add: search_def initial_window_def Let_def)
  then have "fst (find_best_move R b (Suc d)) = (Some (Fin n), Some move)"
    by (simp add: find_best_move_def)
  with ms r show ?thesis
    by simp
qed

text \<open>
  Kings and pawns, white to move, depth 1: the king's move to f2 comes first and is
  returned with score 0, although the pawn's capture on d5 scores -9.
\<close>

theorem white_takes_first_move_witness:
  "rules_reliable (table_rules chess_table) \<and> turn kp_white = White \<and>
   is_game_over (table_rules chess_table) kp_white = Some False \<and>
   legal_moves (table_rules chess_table) kp_white
     = Some [(4, 13), (4, 12), (4, 11), (4, 5), (4, 3), (28, 35), (28, 36)] \<and>
   fst (find_best_move (table_rules chess_table) kp_white 1) = (Some (Fin 0), Some (4, 13))"
proof -
  have t: "turn kp_white = White"
    by (simp add: kp_white_def)
  have g: "is_game_over (table_rules chess_table) kp_white = Some False"
    by code_simp
  have ms: "legal_moves (table_rules chess_table) kp_white
     = Some [(4, 13), (4, 12), (4, 11), (4, 5), (4, 3), (28, 35), (28, 36)]"
    by code_simp
  have ev: "evaluate_board (push (table_rules chess_table) kp_white (4, 13)) = 0"
    by code_simp
  from white_takes_first_move [OF table_rules_reliable t g, of 0] ms ev
  have "fst (find_best_move (table_rules chess_table) kp_white 1) = (Some (Fin 0), Some (4, 13))"
    by auto
  with table_rules_reliable t g ms show ?thesis
    by simp
qed

section \<open>The search returns no move\<close>

text \<open>
  Claim C5. When the search returns no move, \<open>find_best_move\<close> returns no move either.
  If the position is checkmate, the score is replaced by \<open>-inf\<close> when white is to move
  and by \<open>inf\<close> when black is; otherwise the result of the search is returned as it is,
  and it is the evaluation of the position itself. With a reliable engine the search
  returns no move only in its base case (depth 0, or a position that is over).
\<close>

theorem no_move_found:
  assumes "rules_reliable R" and "snd (fst (search R b d)) = None"
  shows "search R b d = ((Some (Fin (evaluate_board b)), None), b) \<and>
         find_best_move R b d =
           (if is_checkmate R b
            then ((Some (if turn b = White then MInf else PInf), None), b)
            else search R b d)"
proof -
  obtain mx \<alpha> \<beta> where w: "initial_window (turn b) = (mx, \<alpha>, \<beta>)"
    by (metis prod.exhaust)
  then have s: "search R b d = minimax R d b \<alpha> \<beta> mx"
    by (simp add: search_def)
  have base: "d = 0 \<or> is_game_over R b = Some True"
  proof (rule ccontr)
    assume "\<not> (d = 0 \<or> is_game_over R b = Some True)"
    with reliable_game_over [OF assms(1), of b]
    have "d \<noteq> 0" and "is_game_over R b = Some False"
      by auto
    with reliable_search_finite(1) [OF assms(1), of d b \<alpha> \<beta> mx]
    have "snd (fst (minimax R d b \<alpha> \<beta> mx)) \<noteq> None"
      by auto
    with s assms(2) show False
      by simp
  qed
  have "minimax R d b \<alpha> \<beta> mx = ((Some (Fin (evaluate_board b)), None), b)"
  proof (cases d)
    case 0
    then show ?thesis by simp
  next
    case (Suc d')
    with base show ?thesis by simp
  qed
  with s have "search R b d = ((Some (Fin (evaluate_board b)), None), b)"
    by simp
  then show ?thesis
    by (simp add: find_best_move_def)
qed

text \<open>White checkmated, and black stalemated, both searched at depth 3.\<close>

theorem no_move_found_witness:
  "rules_reliable (table_rules chess_table) \<and>
   find_best_move (table_rules chess_table) mated_white 3 = ((Some MInf, None), mated_white) \<and>
   find_best_move (table_rules chess_table) stalemated_black 3
     = ((Some (Fin (- 1)), None), stalemated_black)"
proof -
  have m: "snd (fst (search (table_rules chess_table) mated_white 3)) = None"
    by code_simp
  have s: "snd (fst (search (table_rules chess_table) stalemated_black 3)) = None"
    by code_simp
  have cm: "is_checkmate (table_rules chess_table) mated_white"
    by code_simp
  have cs: "\<not> is_checkmate (table_rules chess_table) stalemated_black"
    by code_simp
  have tm: "turn mated_white = White"
    by (simp add: mated_white_def)
  have ev: "evaluate_board stalemated_black = - 1"
    by code_simp
  from no_move_found [OF table_rules_reliable m] cm tm
  have 1: "find_best_move (table_rules chess_table) mated_white 3 = ((Some MInf, None), mated_white)"
    by simp
  from no_move_found [OF table_rules_reliable s] cs ev
  have 2: "find_best_move (table_rules chess_table) stalemated_black 3
     = ((Some (Fin (- 1)), None), stalemated_black)"
    by simp
  from table_rules_reliable 1 2 show ?thesis
    by simp
qed


section \<open>Tie-breaking\<close>

text \<open>
  A loop either ends with the score and the move it started with, or with a strictly
  better score and one of the moves it went through.
\<close>

lemma max_loop_tie_break:
  "max_loop R d ms b f = (Some f', b') \<Longrightarrow>
     (best_score f' = best_score f \<and> best_move f' = best_move f) \<or>
     (best_score f < best_score f' \<and> (\<exists>m\<in>set ms. best_move f' = Some m))"
proof (induction ms arbitrary: b f)
  case Nil
  then show ?case by simp
next
  case (Cons move ms)
  obtain sc mv b1 where r: "minimax R d (push R b move) (alpha f) (beta f) False = ((sc, mv), b1)"
    by (metis prod.exhaust)
  show ?case
  proof (cases sc)
    case None
    with Cons.prems r show ?thesis by simp
  next
    case (Some s)
    let ?g = "f\<lparr>best_score := s, best_move := Some move, alpha := max (alpha f) s\<rparr>"
    show ?thesis
    proof (cases "best_score f < s")
      case better: True
      show ?thesis
      proof (cases "beta ?g \<le> alpha ?g")
        case True
        with Cons.prems r Some better have "f' = ?g" by (simp add: Let_def)
        with better show ?thesis by simp
      next
        case False
        with Cons.prems r Some better have "max_loop R d ms (pop R b1) ?g = (Some f', b')"
          by (simp add: Let_def)
        from Cons.IH [OF this] better show ?thesis by auto
      qed
    next
      case False
      with Cons.prems r Some have "max_loop R d ms (pop R b1) f = (Some f', b')"
        by (simp add: Let_def)
      from Cons.IH [OF this] show ?thesis by auto
    qed
  qed
qed

lemma min_loop_tie_break:
  "min_loop R d ms b f = (Some f', b') \<Longrightarrow>
     (best_score f' = best_score f \<and> best_move f' = best_move f) \<or>
     (best_score f' < best_score f \<and> (\<exists>m\<in>set ms. best_move f' = Some m))"
proof (induction ms arbitrary: b f)
  case Nil
  then show ?case by simp
next
  case (Cons move ms)
  obtain sc mv b1 where r: "minimax R d (push R b move) (alpha f) (beta f) True = ((sc, mv), b1)"
    by (metis prod.exhaust)
  show ?case
  proof (cases sc)
    case None
    with Cons.prems r show ?thesis by simp
  next
    case (Some s)
    let ?g = "f\<lparr>best_score := s, best_move := Some move, beta := min (beta f) s\<rparr>"
    show ?thesis
    proof (cases "s < best_score f")
      case better: True
      show ?thesis
      proof (cases "beta ?g \<le> alpha ?g")
        case True
        with Cons.prems r Some better have "f' = ?g" by (simp add: Let_def)
        with better show ?thesis by simp
      next
        case False
        with Cons.prems r Some better have "min_loop R d ms (pop R b1) ?g = (Some f', b')"
          by (simp add: Let_def)
        from Cons.IH [OF this] better show ?thesis by auto
      qed
    next
      case False
      with Cons.prems r Some have "min_loop R d ms (pop R b1) f = (Some f', b')"
        by (simp add: Let_def)
      from Cons.IH [OF this] show ?thesis by auto
    qed
  qed
qed

text \<open>
  Which move a loop ends with. Either it ends with the incumbent it started with, or
  with some move of its list: the one at a position \<open>i\<close> such that the loop over the
  first \<open>i\<close> moves ends in a frame \<open>g\<close>, the recursive call for that move, made with the
  window of \<open>g\<close>, returns a score strictly better than \<open>best_score g\<close>, and that score and
  that move are the ones the loop ends with. And when the recursive score of the first
  move of the list is strictly better than the incumbent, the loop ends with a score at
  least as good, and with that very move if it ends with that score.
\<close>

lemma max_loop_first_improvement:
  "max_loop R d ms b f = (Some f', b') \<Longrightarrow>
     (best_score f' = best_score f \<and> best_move f' = best_move f) \<or>
     (\<exists>i g c sc mv c'. i < length ms \<and>
        max_loop R d (take i ms) b f = (Some g, c) \<and>
        minimax R d (push R c (ms ! i)) (alpha g) (beta g) False = ((Some sc, mv), c') \<and>
        best_score g < sc \<and> best_score f' = sc \<and> best_move f' = Some (ms ! i))"
proof (induction ms arbitrary: b f)
  case Nil
  then show ?case by simp
next
  case (Cons move ms)
  obtain sc0 mv0 b1
    where r: "minimax R d (push R b move) (alpha f) (beta f) False = ((sc0, mv0), b1)"
    by (metis prod.exhaust)
  show ?case
  proof (cases sc0)
    case None
    with Cons.prems r show ?thesis by simp
  next
    case (Some s)
    let ?g = "f\<lparr>best_score := s, best_move := Some move, alpha := max (alpha f) s\<rparr>"
    have first: "\<exists>i g c sc mv c'. i < length (move # ms) \<and>
        max_loop R d (take i (move # ms)) b f = (Some g, c) \<and>
        minimax R d (push R c ((move # ms) ! i)) (alpha g) (beta g) False = ((Some sc, mv), c') \<and>
        best_score g < sc \<and> best_score f' = sc \<and> best_move f' = Some ((move # ms) ! i)"
      if "best_score f < s" "best_score f' = s" "best_move f' = Some move"
    proof -
      from that r Some
      have "0 < length (move # ms) \<and>
        max_loop R d (take 0 (move # ms)) b f = (Some f, b) \<and>
        minimax R d (push R b ((move # ms) ! 0)) (alpha f) (beta f) False = ((Some s, mv0), b1) \<and>
        best_score f < s \<and> best_score f' = s \<and> best_move f' = Some ((move # ms) ! 0)"
        by simp
      then show ?thesis by blast
    qed
    have later: "\<exists>i g c sc mv c'. i < length (move # ms) \<and>
        max_loop R d (take i (move # ms)) b f = (Some g, c) \<and>
        minimax R d (push R c ((move # ms) ! i)) (alpha g) (beta g) False = ((Some sc, mv), c') \<and>
        best_score g < sc \<and> best_score f' = sc \<and> best_move f' = Some ((move # ms) ! i)"
      if step: "\<And>xs. max_loop R d (move # xs) b f = max_loop R d xs (pop R b1) h"
        and ex: "\<exists>i g c sc mv c'. i < length ms \<and>
          max_loop R d (take i ms) (pop R b1) h = (Some g, c) \<and>
          minimax R d (push R c (ms ! i)) (alpha g) (beta g) False = ((Some sc, mv), c') \<and>
          best_score g < sc \<and> best_score f' = sc \<and> best_move f' = Some (ms ! i)"
      for h
    proof -
      from ex obtain i g c sc mv c' where i: "i < length ms"
        and run: "max_loop R d (take i ms) (pop R b1) h = (Some g, c)"
        and call: "minimax R d (push R c (ms ! i)) (alpha g) (beta g) False = ((Some sc, mv), c')"
        and rest: "best_score g < sc" "best_score f' = sc" "best_move f' = Some (ms ! i)"
        by blast
      from run step [of "take i ms"]
      have "max_loop R d (take (Suc i) (move # ms)) b f = (Some g, c)"
        by simp
      with i call rest
      have "Suc i < length (move # ms) \<and>
        max_loop R d (take (Suc i) (move # ms)) b f = (Some g, c) \<and>
        minimax R d (push R c ((move # ms) ! Suc i)) (alpha g) (beta g) False = ((Some sc, mv), c') \<and>
        best_score g < sc \<and> best_score f' = sc \<and> best_move f' = Some ((move # ms) ! Suc i)"
        by simp
      then show ?thesis by blast
    qed
    show ?thesis
    proof (cases "best_score f < s")
      case better: True
      show ?thesis
      proof (cases "beta ?g \<le> alpha ?g")
        case True
        with Cons.prems r Some better have "f' = ?g" by (simp add: Let_def)
        with first [OF better] show ?thesis by simp
      next
        case False
        with r Some better
        have step: "max_loop R d (move # xs) b f = max_loop R d xs (pop R b1) ?g" for xs
          by (simp add: Let_def)
        with Cons.prems have "max_loop R d ms (pop R b1) ?g = (Some f', b')"
          by simp
        from Cons.IH [OF this] show ?thesis
        proof
          assume "best_score f' = best_score ?g \<and> best_move f' = best_move ?g"
          with first [OF better] show ?thesis by simp
        next
          assume "\<exists>i g c sc mv c'. i < length ms \<and>
            max_loop R d (take i ms) (pop R b1) ?g = (Some g, c) \<and>
            minimax R d (push R c (ms ! i)) (alpha g) (beta g) False = ((Some sc, mv), c') \<and>
            best_score g < sc \<and> best_score f' = sc \<and> best_move f' = Some (ms ! i)"
          with later [of ?g] step show ?thesis by blast
        qed
      qed
    next
      case False
      with r Some
      have step: "max_loop R d (move # xs) b f = max_loop R d xs (pop R b1) f" for xs
        by (simp add: Let_def)
      with Cons.prems have "max_loop R d ms (pop R b1) f = (Some f', b')"
        by simp
      from Cons.IH [OF this] show ?thesis
      proof
        assume "best_score f' = best_score f \<and> best_move f' = best_move f"
        then show ?thesis by simp
      next
        assume "\<exists>i g c sc mv c'. i < length ms \<and>
          max_loop R d (take i ms) (pop R b1) f = (Some g, c) \<and>
          minimax R d (push R c (ms ! i)) (alpha g) (beta g) False = ((Some sc, mv), c') \<and>
          best_score g < sc \<and> best_score f' = sc \<and> best_move f' = Some (ms ! i)"
        with later [of f] step show ?thesis by blast
      qed
    qed
  qed
qed

lemma max_loop_improving_head:
  assumes "minimax R d (push R b move) (alpha f) (beta f) False = ((Some sc, mv), c)"
    and "best_score f < sc"
    and "max_loop R d (move # ms) b f = (Some f', b')"
  shows "sc \<le> best_score f' \<and> (best_score f' = sc \<longrightarrow> best_move f' = Some move)"
proof -
  let ?g = "f\<lparr>best_score := sc, best_move := Some move, alpha := max (alpha f) sc\<rparr>"
  show ?thesis
  proof (cases "beta ?g \<le> alpha ?g")
    case True
    with assms have "f' = ?g" by (simp add: Let_def)
    then show ?thesis by simp
  next
    case False
    with assms have "max_loop R d ms (pop R c) ?g = (Some f', b')"
      by (simp add: Let_def)
    from max_loop_tie_break [OF this] show ?thesis by auto
  qed
qed

lemma min_loop_first_improvement:
  "min_loop R d ms b f = (Some f', b') \<Longrightarrow>
     (best_score f' = best_score f \<and> best_move f' = best_move f) \<or>
     (\<exists>i g c sc mv c'. i < length ms \<and>
        min_loop R d (take i ms) b f = (Some g, c) \<and>
        minimax R d (push R c (ms ! i)) (alpha g) (beta g) True = ((Some sc, mv), c') \<and>
        sc < best_score g \<and> best_score f' = sc \<and> best_move f' = Some (ms ! i))"
proof (induction ms arbitrary: b f)
  case Nil
  then show ?case by simp
next
  case (Cons move ms)
  obtain sc0 mv0 b1
    where r: "minimax R d (push R b move) (alpha f) (beta f) True = ((sc0, mv0), b1)"
    by (metis prod.exhaust)
  show ?case
  proof (cases sc0)
    case None
    with Cons.prems r show ?thesis by simp
  next
    case (Some s)
    let ?g = "f\<lparr>best_score := s, best_move := Some move, beta := min (beta f) s\<rparr>"
    have first: "\<exists>i g c sc mv c'. i < length (move # ms) \<and>
        min_loop R d (take i (move # ms)) b f = (Some g, c) \<and>
        minimax R d (push R c ((move # ms) ! i)) (alpha g) (beta g) True = ((Some sc, mv), c') \<and>
        sc < best_score g \<and> best_score f' = sc \<and> best_move f' = Some ((move # ms) ! i)"
      if "s < best_score f" "best_score f' = s" "best_move f' = Some move"
    proof -
      from that r Some
      have "0 < length (move # ms) \<and>
        min_loop R d (take 0 (move # ms)) b f = (Some f, b) \<and>
        minimax R d (push R b ((move # ms) ! 0)) (alpha f) (beta f) True = ((Some s, mv0), b1) \<and>
        s < best_score f \<and> best_score f' = s \<and> best_move f' = Some ((move # ms) ! 0)"
        by simp
      then show ?thesis by blast
    qed
    have later: "\<exists>i g c sc mv c'. i < length (move # ms) \<and>
        min_loop R d (take i (move # ms)) b f = (Some g, c) \<and>
        minimax R d (push R c ((move # ms) ! i)) (alpha g) (beta g) True = ((Some sc, mv), c') \<and>
        sc < best_score g \<and> best_score f' = sc \<and> best_move f' = Some ((move # ms) ! i)"
      if step: "\<And>xs. min_loop R d (move # xs) b f = min_loop R d xs (pop R b1) h"
        and ex: "\<exists>i g c sc mv c'. i < length ms \<and>
          min_loop R d (take i ms) (pop R b1) h = (Some g, c) \<and>
          minimax R d (push R c (ms ! i)) (alpha g) (beta g) True = ((Some sc, mv), c') \<and>
          sc < best_score g \<and> best_score f' = sc \<and> best_move f' = Some (ms ! i)"
      for h
    proof -
      from ex obtain i g c sc mv c' where i: "i < length ms"
        and run: "min_loop R d (take i ms) (pop R b1) h = (Some g, c)"
        and call: "minimax R d (push R c (ms ! i)) (alpha g) (beta g) True = ((Some sc, mv), c')"
        and rest: "sc < best_score g" "best_score f' = sc" "best_move f' = Some (ms ! i)"
        by blast
      from run step [of "take i ms"]
      have "min_loop R d (take (Suc i) (move # ms)) b f = (Some g, c)"
        by simp
      with i call rest
      have "Suc i < length (move # ms) \<and>
        min_loop R d (take (Suc i) (move # ms)) b f = (Some g, c) \<and>
        minimax R d (push R c ((move # ms) ! Suc i)) (alpha g) (beta g) True = ((Some sc, mv), c') \<and>
        sc < best_score g \<and> best_score f' = sc \<and> best_move f' = Some ((move # ms) ! Suc i)"
        by simp
      then show ?thesis by blast
    qed
    show ?thesis
    proof (cases "s < best_score f")
      case better: True
      show ?thesis
      proof (cases "beta ?g \<le> alpha ?g")
        case True
        with Cons.prems r Some better have "f' = ?g" by (simp add: Let_def)
        with first [OF better] show ?thesis by simp
      next
        case False
        with r Some better
        have step: "min_loop R d (move # xs) b f = min_loop R d xs (pop R b1) ?g" for xs
          by (simp add: Let_def)
        with Cons.prems have "min_loop R d ms (pop R b1) ?g = (Some f', b')"
          by simp
        from Cons.IH [OF this] show ?thesis
        proof
          assume "best_score f' = best_score ?g \<and> best_move f' = best_move ?g"
          with first [OF better] show ?thesis by simp
        next
          assume "\<exists>i g c sc mv c'. i < length ms \<and>
            min_loop R d (take i ms) (pop R b1) ?g = (Some g, c) \<and>
            minimax R d (push R c (ms ! i)) (alpha g) (beta g) True = ((Some sc, mv), c') \<and>
            sc < best_score g \<and> best_score f' = sc \<and> best_move f' = Some (ms ! i)"
          with later [of ?g] step show ?thesis by blast
        qed
      qed
    next
      case False
      with r Some
      have step: "min_loop R d (move # xs) b f = min_loop R d xs (pop R b1) f" for xs
        by (simp add: Let_def)
      with Cons.prems have "min_loop R d ms (pop R b1) f = (Some f', b')"
        by simp
      from Cons.IH [OF this] show ?thesis
      proof
        assume "best_score f' = best_score f \<and> best_move f' = best_move f"
        then show ?thesis by simp
      next
        assume "\<exists>i g c sc mv c'. i < length ms \<and>
          min_loop R d (take i ms) (pop R b1) f = (Some g, c) \<and>
          minimax R d (push R c (ms ! i)) (alpha g) (beta g) True = ((Some sc, mv), c') \<and>
          sc < best_score g \<and> best_score f' = sc \<and> best_move f' = Some (ms ! i)"
        with later [of f] step show ?thesis by blast
      qed
    qed
  qed
qed

lemma min_loop_improving_head:
  assumes "minimax R d (push R b move) (alpha f) (beta f) True = ((Some sc, mv), c)"
    and "sc < best_score f"
    and "min_loop R d (move # ms) b f = (Some f', b')"
  shows "best_score f' \<le> sc \<and> (best_score f' = sc \<longrightarrow> best_move f' = Some move)"
proof -
  let ?g = "f\<lparr>best_score := sc, best_move := Some move, beta := min (beta f) sc\<rparr>"
  show ?thesis
  proof (cases "beta ?g \<le> alpha ?g")
    case True
    with assms have "f' = ?g" by (simp add: Let_def)
    then show ?thesis by simp
  next
    case False
    with assms have "min_loop R d ms (pop R c) ?g = (Some f', b')"
      by (simp add: Let_def)
    from min_loop_tie_break [OF this] show ?thesis by auto
  qed
qed


text \<open>
  Claim C10. In every call of the search the incumbent best move is replaced only by a
  move whose recursive score is strictly better: strictly greater when maximizing,
  strictly less when minimizing. The move a loop ends with is either the incumbent it
  was entered with, or the move whose recursive score was strictly better than every
  score taken before it and is the score the loop ends with: the first move that
  achieved the final score. A move whose recursive score is strictly better than the
  incumbent is taken, and a later move that only ties its score does not replace it. The
  result is a function of the enumeration of the moves.
\<close>

theorem strictly_better_replaces:
  "(max_loop R d ms b f = (Some f', b') \<longrightarrow>
      (best_score f' = best_score f \<and> best_move f' = best_move f) \<or>
      (\<exists>i g c sc mv c'. i < length ms \<and>
         max_loop R d (take i ms) b f = (Some g, c) \<and>
         minimax R d (push R c (ms ! i)) (alpha g) (beta g) False = ((Some sc, mv), c') \<and>
         best_score g < sc \<and> best_score f' = sc \<and> best_move f' = Some (ms ! i))) \<and>
   (minimax R d (push R b move) (alpha f) (beta f) False = ((Some s, mv0), c0) \<and>
    best_score f < s \<and> max_loop R d (move # ms) b f = (Some f', b') \<longrightarrow>
      s \<le> best_score f' \<and> (best_score f' = s \<longrightarrow> best_move f' = Some move)) \<and>
   (min_loop R d ms b f = (Some f', b') \<longrightarrow>
      (best_score f' = best_score f \<and> best_move f' = best_move f) \<or>
      (\<exists>i g c sc mv c'. i < length ms \<and>
         min_loop R d (take i ms) b f = (Some g, c) \<and>
         minimax R d (push R c (ms ! i)) (alpha g) (beta g) True = ((Some sc, mv), c') \<and>
         sc < best_score g \<and> best_score f' = sc \<and> best_move f' = Some (ms ! i))) \<and>
   (minimax R d (push R b move) (alpha f) (beta f) True = ((Some s, mv0), c0) \<and>
    s < best_score f \<and> min_loop R d (move # ms) b f = (Some f', b') \<longrightarrow>
      best_score f' \<le> s \<and> (best_score f' = s \<longrightarrow> best_move f' = Some move))"
  using max_loop_first_improvement [of R d ms b f f' b']
    min_loop_first_improvement [of R d ms b f f' b']
    max_loop_improving_head [of R d b move f s mv0 c0 ms f' b']
    min_loop_improving_head [of R d b move f s mv0 c0 ms f' b']
  by blast

text \<open>
  Kings and pawns at depth 1. With black to move, the five king moves all score 0 and
  the loop over them ends with the first, to f8. With white to move, the king's moves to
  f2 and e2 score 0, the capture on d5 scores -9 and replaces f2, and the advance to e5
  scores 0 and does not.
\<close>

theorem strictly_better_replaces_witness:
  "minimax (table_rules chess_table) 0 (push (table_rules chess_table) kp_black (60, 61)) MInf PInf False
     = ((Some (Fin 0), None), push (table_rules chess_table) kp_black (60, 61)) \<and>
   max_loop (table_rules chess_table) 0 [(60, 61), (60, 59), (60, 53), (60, 52), (60, 51)] kp_black
      \<lparr>alpha = MInf, beta = PInf, best_score = MInf, best_move = None\<rparr>
    = (Some \<lparr>alpha = Fin 0, beta = PInf, best_score = Fin 0, best_move = Some (60, 61)\<rparr>, kp_black) \<and>
   minimax (table_rules chess_table) 0 (push (table_rules chess_table) kp_white (4, 13)) MInf PInf True
     = ((Some (Fin 0), None), push (table_rules chess_table) kp_white (4, 13)) \<and>
   min_loop (table_rules chess_table) 0 [(4, 13), (4, 12), (28, 35), (28, 36)] kp_white
      \<lparr>alpha = MInf, beta = PInf, best_score = PInf, best_move = None\<rparr>
    = (Some \<lparr>alpha = MInf, beta = Fin (- 9), best_score = Fin (- 9), best_move = Some (28, 35)\<rparr>,
       kp_white)"
proof -
  let ?R = "table_rules chess_table"
  let ?F = "\<lparr>alpha = MInf, beta = PInf, best_score = MInf, best_move = None\<rparr> :: move frame"
  let ?G = "\<lparr>alpha = MInf, beta = PInf, best_score = PInf, best_move = None\<rparr> :: move frame"
  have 1: "minimax ?R 0 (push ?R kp_black (60, 61)) MInf PInf False
     = ((Some (Fin 0), None), push ?R kp_black (60, 61))"
    by code_simp
  have 2: "max_loop ?R 0 [(60, 61), (60, 59), (60, 53), (60, 52), (60, 51)] kp_black ?F
    = (Some \<lparr>alpha = Fin 0, beta = PInf, best_score = Fin 0, best_move = Some (60, 61)\<rparr>, kp_black)"
    by code_simp
  have 3: "minimax ?R 0 (push ?R kp_white (4, 13)) MInf PInf True
     = ((Some (Fin 0), None), push ?R kp_white (4, 13))"
    by code_simp
  have 4: "min_loop ?R 0 [(4, 13), (4, 12), (28, 35), (28, 36)] kp_white ?G
    = (Some \<lparr>alpha = MInf, beta = Fin (- 9), best_score = Fin (- 9), best_move = Some (28, 35)\<rparr>,
       kp_white)"
    by code_simp
  from strictly_better_replaces
    [of ?R 0 "[(60, 59), (60, 53), (60, 52), (60, 51)]" kp_black ?F
        "\<lparr>alpha = Fin 0, beta = PInf, best_score = Fin 0, best_move = Some (60, 61)\<rparr>" kp_black
        "(60, 61)" "Fin 0" None "push ?R kp_black (60, 61)"]
    1 2 3 4
  show ?thesis by simp
qed


section \<open>The bound of the cutoff test\<close>

text \<open>
  A maximizing loop entered with \<open>alpha = best_score\<close> keeps them equal and never touches
  \<open>beta\<close>; a minimizing loop does the same with \<open>beta\<close> and \<open>alpha\<close>.
\<close>

lemma max_loop_alpha:
  "max_loop R d ms b f = (Some f', b') \<Longrightarrow> alpha f = best_score f \<Longrightarrow>
     alpha f' = best_score f' \<and> beta f' = beta f"
proof (induction ms arbitrary: b f)
  case Nil
  then show ?case by auto
next
  case (Cons move ms)
  obtain sc mv b1 where r: "minimax R d (push R b move) (alpha f) (beta f) False = ((sc, mv), b1)"
    by (metis prod.exhaust)
  show ?case
  proof (cases sc)
    case None
    with Cons.prems r show ?thesis by simp
  next
    case (Some s)
    let ?g = "f\<lparr>best_score := s, best_move := Some move, alpha := max (alpha f) s\<rparr>"
    show ?thesis
    proof (cases "best_score f < s")
      case better: True
      with Cons.prems(2) have g: "alpha ?g = best_score ?g" "beta ?g = beta f"
        by (auto simp: max_def)
      show ?thesis
      proof (cases "beta ?g \<le> alpha ?g")
        case True
        with Cons.prems r Some better have "f' = ?g" by (simp add: Let_def)
        with g show ?thesis by simp
      next
        case False
        with Cons.prems r Some better have "max_loop R d ms (pop R b1) ?g = (Some f', b')"
          by (simp add: Let_def)
        from Cons.IH [OF this g(1)] g(2) show ?thesis by simp
      qed
    next
      case False
      with Cons.prems r Some have "max_loop R d ms (pop R b1) f = (Some f', b')"
        by (simp add: Let_def)
      from Cons.IH [OF this Cons.prems(2)] show ?thesis .
    qed
  qed
qed

lemma min_loop_beta:
  "min_loop R d ms b f = (Some f', b') \<Longrightarrow> beta f = best_score f \<Longrightarrow>
     beta f' = best_score f' \<and> alpha f' = alpha f"
proof (induction ms arbitrary: b f)
  case Nil
  then show ?case by auto
next
  case (Cons move ms)
  obtain sc mv b1 where r: "minimax R d (push R b move) (alpha f) (beta f) True = ((sc, mv), b1)"
    by (metis prod.exhaust)
  show ?case
  proof (cases sc)
    case None
    with Cons.prems r show ?thesis by simp
  next
    case (Some s)
    let ?g = "f\<lparr>best_score := s, best_move := Some move, beta := min (beta f) s\<rparr>"
    show ?thesis
    proof (cases "s < best_score f")
      case better: True
      with Cons.prems(2) have g: "beta ?g = best_score ?g" "alpha ?g = alpha f"
        by (auto simp: min_def)
      show ?thesis
      proof (cases "beta ?g \<le> alpha ?g")
        case True
        with Cons.prems r Some better have "f' = ?g" by (simp add: Let_def)
        with g show ?thesis by simp
      next
        case False
        with Cons.prems r Some better have "min_loop R d ms (pop R b1) ?g = (Some f', b')"
          by (simp add: Let_def)
        from Cons.IH [OF this g(1)] g(2) show ?thesis by simp
      qed
    next
      case False
      with Cons.prems r Some have "min_loop R d ms (pop R b1) f = (Some f', b')"
        by (simp add: Let_def)
      from Cons.IH [OF this Cons.prems(2)] show ?thesis .
    qed
  qed
qed

text \<open>
  The loops of the search, entered as the branches enter them, are the loops of the
  claim with the starting bounds \<open>-inf\<close> and \<open>inf\<close>.
\<close>

lemma max_MInf: "max MInf x = x" "max x MInf = x"
  by (cases x; simp add: max_def)+

lemma min_PInf: "min PInf x = x" "min x PInf = x"
  by (cases x; simp add: min_def)+

lemma max_loop_with_bound:
  "alpha f = best_score f \<Longrightarrow>
     finish (max_loop R d ms b f)
       = max_with_bound R d MInf (beta f) ms b (best_score f) (best_move f)"
proof (induction ms arbitrary: b f)
  case Nil
  show ?case by (simp add: finish_def max_MInf min_PInf)
next
  case (Cons move ms)
  obtain sc mv b1 where r: "minimax R d (push R b move) (alpha f) (beta f) False = ((sc, mv), b1)"
    by (metis prod.exhaust)
  show ?case
  proof (cases sc)
    case None
    with r Cons.prems show ?thesis by (simp add: finish_def max_MInf min_PInf)
  next
    case (Some s)
    let ?g = "f\<lparr>best_score := s, best_move := Some move, alpha := max (alpha f) s\<rparr>"
    show ?thesis
    proof (cases "best_score f < s")
      case True
      with Cons.prems have g: "alpha ?g = best_score ?g" and a: "max (alpha f) s = s"
        by (auto simp: max_def)
      from Cons.IH [OF g] r Some True Cons.prems a show ?thesis
        by (simp add: Let_def finish_def max_MInf min_PInf)
    next
      case False
      with Cons.IH [OF Cons.prems] r Some Cons.prems show ?thesis
        by (simp add: Let_def max_MInf min_PInf)
    qed
  qed
qed

lemma min_loop_with_bound:
  "beta f = best_score f \<Longrightarrow>
     finish (min_loop R d ms b f)
       = min_with_bound R d (alpha f) PInf ms b (best_score f) (best_move f)"
proof (induction ms arbitrary: b f)
  case Nil
  show ?case by (simp add: finish_def max_MInf min_PInf)
next
  case (Cons move ms)
  obtain sc mv b1 where r: "minimax R d (push R b move) (alpha f) (beta f) True = ((sc, mv), b1)"
    by (metis prod.exhaust)
  show ?case
  proof (cases sc)
    case None
    with r Cons.prems show ?thesis by (simp add: finish_def max_MInf min_PInf)
  next
    case (Some s)
    let ?g = "f\<lparr>best_score := s, best_move := Some move, beta := min (beta f) s\<rparr>"
    show ?thesis
    proof (cases "s < best_score f")
      case True
      with Cons.prems have g: "beta ?g = best_score ?g" and a: "min (beta f) s = s"
        by (auto simp: min_def)
      from Cons.IH [OF g] r Some True Cons.prems a show ?thesis
        by (simp add: Let_def finish_def max_MInf min_PInf)
    next
      case False
      with Cons.IH [OF Cons.prems] r Some Cons.prems show ?thesis
        by (simp add: Let_def max_MInf min_PInf)
    qed
  qed
qed

text \<open>
  Claim C4, as amended. With \<open>maximizing_player\<close> true, the \<open>alpha\<close> passed to the
  recursive calls and used for the cutoff test is the best score found so far in this
  call, starting from \<open>-inf\<close>: the call is \<open>max_with_bound\<close> with the starting bound
  \<open>-inf\<close>, whatever \<open>alpha\<close> the caller supplied, and with the caller's \<open>beta\<close> as it is.
  Mirrored when \<open>maximizing_player\<close> is false: the call is \<open>min_with_bound\<close> with the
  starting bound \<open>inf\<close>, whatever \<open>beta\<close> the caller supplied, and with the caller's
  \<open>alpha\<close> as it is. In the frame a branch ends in, the bound equals the best score, and
  a branch does not depend on the bound it discards.
\<close>

theorem bound_is_best_score:
  "(is_game_over R b = Some False \<and> legal_moves R b = Some ms \<longrightarrow>
      minimax R (Suc d) b \<alpha> \<beta> True = max_with_bound R d MInf \<beta> ms b MInf None \<and>
      minimax R (Suc d) b \<alpha> \<beta> False = min_with_bound R d \<alpha> PInf ms b PInf None) \<and>
   (max_branch R d b \<alpha> \<beta> = (Some f, b') \<longrightarrow> alpha f = best_score f \<and> beta f = \<beta>) \<and>
   (min_branch R d b \<alpha> \<beta> = (Some f, b') \<longrightarrow> beta f = best_score f \<and> alpha f = \<alpha>) \<and>
   max_branch R d b \<alpha> \<beta> = max_branch R d b \<alpha>' \<beta> \<and>
   min_branch R d b \<alpha> \<beta> = min_branch R d b \<alpha> \<beta>'"
proof -
  have "minimax R (Suc d) b \<alpha> \<beta> True = max_with_bound R d MInf \<beta> ms b MInf None"
    if "is_game_over R b = Some False" "legal_moves R b = Some ms"
    using that
      max_loop_with_bound [of "\<lparr>alpha = MInf, beta = \<beta>, best_score = MInf, best_move = None\<rparr>" R d ms b]
    by (simp add: finish_def)
  moreover have "minimax R (Suc d) b \<alpha> \<beta> False = min_with_bound R d \<alpha> PInf ms b PInf None"
    if "is_game_over R b = Some False" "legal_moves R b = Some ms"
    using that
      min_loop_with_bound [of "\<lparr>alpha = \<alpha>, beta = PInf, best_score = PInf, best_move = None\<rparr>" R d ms b]
    by (simp add: finish_def)
  moreover have "alpha f = best_score f \<and> beta f = \<beta>" if "max_branch R d b \<alpha> \<beta> = (Some f, b')"
  proof (cases "legal_moves R b")
    case None
    with that show ?thesis by simp
  next
    case (Some ms)
    with that max_loop_alpha [of R d ms b "\<lparr>alpha = MInf, beta = \<beta>, best_score = MInf, best_move = None\<rparr>" f b']
    show ?thesis by simp
  qed
  moreover have "beta f = best_score f \<and> alpha f = \<alpha>" if "min_branch R d b \<alpha> \<beta> = (Some f, b')"
  proof (cases "legal_moves R b")
    case None
    with that show ?thesis by simp
  next
    case (Some ms)
    with that min_loop_beta [of R d ms b "\<lparr>alpha = \<alpha>, beta = PInf, best_score = PInf, best_move = None\<rparr>" f b']
    show ?thesis by simp
  qed
  moreover have "max_branch R d b \<alpha> \<beta> = max_branch R d b \<alpha>' \<beta>"
    and "min_branch R d b \<alpha> \<beta> = min_branch R d b \<alpha> \<beta>'"
    by simp_all
  ultimately show ?thesis by blast
qed

text \<open>Kings and pawns at depth 1, with the windows (20, 20) and (-20, -20).\<close>

theorem bound_is_best_score_witness:
  "is_game_over (table_rules chess_table) kp_black = Some False \<and>
   legal_moves (table_rules chess_table) kp_black
     = Some [(60, 61), (60, 59), (60, 53), (60, 52), (60, 51), (35, 28), (35, 27)] \<and>
   minimax (table_rules chess_table) 1 kp_black (Fin 20) (Fin 20) True
     = max_with_bound (table_rules chess_table) 0 MInf (Fin 20)
         [(60, 61), (60, 59), (60, 53), (60, 52), (60, 51), (35, 28), (35, 27)] kp_black MInf None \<and>
   max_branch (table_rules chess_table) 0 kp_black (Fin 20) (Fin 20)
     = (Some \<lparr>alpha = Fin 9, beta = Fin 20, best_score = Fin 9, best_move = Some (35, 28)\<rparr>, kp_black) \<and>
   min_branch (table_rules chess_table) 0 kp_white (Fin (- 20)) (Fin (- 20))
     = (Some \<lparr>alpha = Fin (- 20), beta = Fin (- 9), best_score = Fin (- 9), best_move = Some (28, 35)\<rparr>,
        kp_white)"
proof -
  have g: "is_game_over (table_rules chess_table) kp_black = Some False"
    by code_simp
  have l: "legal_moves (table_rules chess_table) kp_black
     = Some [(60, 61), (60, 59), (60, 53), (60, 52), (60, 51), (35, 28), (35, 27)]"
    by code_simp
  have 1: "max_branch (table_rules chess_table) 0 kp_black (Fin 20) (Fin 20)
     = (Some \<lparr>alpha = Fin 9, beta = Fin 20, best_score = Fin 9, best_move = Some (35, 28)\<rparr>, kp_black)"
    by code_simp
  have 2: "min_branch (table_rules chess_table) 0 kp_white (Fin (- 20)) (Fin (- 20))
     = (Some \<lparr>alpha = Fin (- 20), beta = Fin (- 9), best_score = Fin (- 9), best_move = Some (28, 35)\<rparr>,
        kp_white)"
    by code_simp
  from bound_is_best_score
    [of "table_rules chess_table" kp_black
        "[(60, 61), (60, 59), (60, 53), (60, 52), (60, 51), (35, 28), (35, 27)]" 0 "Fin 20" "Fin 20"]
    g l
  have "minimax (table_rules chess_table) 1 kp_black (Fin 20) (Fin 20) True
     = max_with_bound (table_rules chess_table) 0 MInf (Fin 20)
         [(60, 61), (60, 59), (60, 53), (60, 52), (60, 51), (35, 28), (35, 27)] kp_black MInf None"
    by simp
  with g l 1 2 show ?thesis
    by simp
qed

text \<open>
  Claim C4 as stated fails. Kings and pawns, black to move, depth 1, called with
  \<open>alpha = beta = 20\<close>: the branch ends with \<open>alpha = 9\<close>, the best score, and not with
  \<open>max(20, 9) = 20\<close>; no cutoff happens and the capture on e4 is returned with score 9. A
  loop that started from the caller's \<open>alpha\<close> would have stopped after the first move,
  with score 0: so does the loop of the search entered with \<open>alpha = 20\<close>, and so does
  the loop of the claim with the starting bound 20.
\<close>

theorem caller_alpha_not_kept:
  "max_branch (table_rules chess_table) 0 kp_black (Fin 20) (Fin 20)
     = (Some \<lparr>alpha = Fin 9, beta = Fin 20, best_score = Fin 9, best_move = Some (35, 28)\<rparr>, kp_black) \<and>
   Fin 9 \<noteq> max (Fin 20) (Fin 9) \<and>
   fst (minimax (table_rules chess_table) 1 kp_black (Fin 20) (Fin 20) True)
     = (Some (Fin 9), Some (35, 28)) \<and>
   fst (max_loop (table_rules chess_table) 0
          [(60, 61), (60, 59), (60, 53), (60, 52), (60, 51), (35, 28), (35, 27)] kp_black
          \<lparr>alpha = Fin 20, beta = Fin 20, best_score = MInf, best_move = None\<rparr>)
     = Some \<lparr>alpha = Fin 20, beta = Fin 20, best_score = Fin 0, best_move = Some (60, 61)\<rparr> \<and>
   fst (max_with_bound (table_rules chess_table) 0 (Fin 20) (Fin 20)
          [(60, 61), (60, 59), (60, 53), (60, 52), (60, 51), (35, 28), (35, 27)] kp_black MInf None)
     = (Some (Fin 0), Some (60, 61))"
  by code_simp

section \<open>The initial window\<close>

text \<open>
  Claim C2 at a position with white to move: \<open>find_best_move\<close> seeds the search with
  \<open>alpha = inf\<close> and \<open>beta = -inf\<close>, a window with \<open>alpha > beta\<close>. With black to move the
  window is \<open>(-inf, inf)\<close>.
\<close>

theorem white_window_inverted:
  "initial_window (turn kp_white) = (False, PInf, MInf) \<and> \<not> PInf \<le> MInf \<and>
   initial_window (turn kp_black) = (True, MInf, PInf) \<and>
   search (table_rules chess_table) kp_white 1
     = minimax (table_rules chess_table) 1 kp_white PInf MInf False"
  by (simp add: search_def initial_window_def kp_white_def kp_black_def)

section \<open>The search against brute-force minimax\<close>

text \<open>
  Pruning in this search is shallow: a maximizing call forgets the \<open>alpha\<close> of its caller
  and prunes against the caller's \<open>beta\<close> only, a minimizing call the other way round.
  That is still sound. Against brute-force minimax, a maximizing call never returns more
  than the value of the position, and returns the value when its result is below \<open>beta\<close>;
  a minimizing call never returns less, and returns the value when its result is above
  \<open>alpha\<close>. The engine is taken to be reliable, and its \<open>pop\<close> to undo its \<open>push\<close>.
\<close>

lemma fold_max_ge: "a \<le> fold max vs (a :: score)"
proof (induction vs arbitrary: a)
  case Nil
  show ?case by simp
next
  case (Cons v vs)
  have "a \<le> max v a" by simp
  also have "\<dots> \<le> fold max vs (max v a)" by (rule Cons.IH)
  finally show ?case by simp
qed

lemma fold_min_le: "fold min vs (a :: score) \<le> a"
proof (induction vs arbitrary: a)
  case Nil
  show ?case by simp
next
  case (Cons v vs)
  have "fold min vs (min v a) \<le> min v a" by (rule Cons.IH)
  also have "\<dots> \<le> a" by simp
  finally show ?case by simp
qed

lemma those_map_total:
  assumes "\<And>x. x \<in> set xs \<Longrightarrow> \<exists>y. f x = Some y"
  shows "\<exists>ys. those (map f xs) = Some ys"
  using assms
proof (induction xs)
  case Nil
  show ?case by simp
next
  case (Cons x xs)
  from Cons.prems obtain y where "f x = Some y" by auto
  moreover from Cons obtain ys where "those (map f xs) = Some ys" by auto
  ultimately show ?case by simp
qed

lemma plain_minimax_total:
  assumes "rules_reliable R"
  shows "\<exists>v. plain_minimax R d b mx = Some v"
proof (induction d arbitrary: b mx)
  case 0
  show ?case by simp
next
  case (Suc d)
  from reliable_game_over [OF assms] obtain g where g: "is_game_over R b = Some g"
    by blast
  show ?case
  proof (cases g)
    case True
    with g show ?thesis by simp
  next
    case False
    with reliable_legal_moves [OF assms, of b] g obtain ms where ms: "legal_moves R b = Some ms"
      by auto
    from those_map_total [of ms "\<lambda>move. plain_minimax R d (push R b move) (\<not> mx)"] Suc
    obtain vs where "those (map (\<lambda>move. plain_minimax R d (push R b move) (\<not> mx)) ms) = Some vs"
      by blast
    with g False ms show ?thesis by simp
  qed
qed

lemma max_loop_sound:
  assumes paired: "push_pop_paired R"
    and total: "\<And>m. \<exists>v. plain_minimax R d (push R b m) False = Some v"
    and child: "\<And>m \<alpha> \<beta>. \<exists>sc mv vc.
           fst (minimax R d (push R b m) \<alpha> \<beta> False) = (Some sc, mv) \<and>
           plain_minimax R d (push R b m) False = Some vc \<and> vc \<le> sc \<and> (\<alpha> < sc \<longrightarrow> sc = vc)"
    and inv: "alpha f = best_score f"
  shows "\<exists>f' vs. fst (max_loop R d ms b f) = Some f' \<and>
           those (map (\<lambda>m. plain_minimax R d (push R b m) False) ms) = Some vs \<and>
           best_score f' \<le> fold max vs (best_score f) \<and>
           (best_score f' < beta f \<longrightarrow> best_score f' = fold max vs (best_score f))"
  using inv
proof (induction ms arbitrary: f)
  case Nil
  show ?case by simp
next
  case (Cons move ms)
  from child [of move "alpha f" "beta f"] obtain sc mv vc
    where r: "fst (minimax R d (push R b move) (alpha f) (beta f) False) = (Some sc, mv)"
      and vc: "plain_minimax R d (push R b move) False = Some vc"
      and le: "vc \<le> sc" and exact: "alpha f < sc \<Longrightarrow> sc = vc"
    by blast
  from search_keeps_board(1) [OF paired]
  have "snd (minimax R d (push R b move) (alpha f) (beta f) False) = push R b move" .
  with r have call: "minimax R d (push R b move) (alpha f) (beta f) False
      = ((Some sc, mv), push R b move)"
    by (simp add: prod_eq_iff)
  from paired have undone: "pop R (push R b move) = b"
    by (simp add: push_pop_paired_def)
  from those_map_total [of ms "\<lambda>m. plain_minimax R d (push R b m) False"] total
  obtain ws where ws: "those (map (\<lambda>m. plain_minimax R d (push R b m) False) ms) = Some ws"
    by blast
  let ?g = "f\<lparr>best_score := sc, best_move := Some move, alpha := max (alpha f) sc\<rparr>"
  show ?case
  proof (cases "best_score f < sc")
    case better: True
    with Cons.prems exact have sc: "sc = vc" by simp
    from better Cons.prems have g: "alpha ?g = best_score ?g"
      by (auto simp: max_def)
    from better sc have mx: "max vc (best_score f) = sc"
      by (auto simp: max_def)
    show ?thesis
    proof (cases "beta ?g \<le> alpha ?g")
      case True
      with call undone better have res: "max_loop R d (move # ms) b f = (Some ?g, b)"
        by (simp add: Let_def)
      from True g have "\<not> best_score ?g < beta f" by simp
      moreover have "best_score ?g \<le> fold max ws (max vc (best_score f))"
        using fold_max_ge [of sc ws] mx by simp
      ultimately show ?thesis
        using res vc ws by simp
    next
      case False
      with call undone better
      have res: "max_loop R d (move # ms) b f = max_loop R d ms b ?g"
        by (simp add: Let_def)
      from Cons.IH [OF g] ws obtain f'
        where "fst (max_loop R d ms b ?g) = Some f'"
          and "best_score f' \<le> fold max ws (best_score ?g)"
          and "best_score f' < beta ?g \<longrightarrow> best_score f' = fold max ws (best_score ?g)"
        by auto
      with res vc ws mx show ?thesis by simp
    qed
  next
    case False
    with le have mx: "max vc (best_score f) = best_score f"
      by (auto simp: max_def)
    from False call undone
    have res: "max_loop R d (move # ms) b f = max_loop R d ms b f"
      by (simp add: Let_def)
    from Cons.IH [OF Cons.prems] ws obtain f'
      where "fst (max_loop R d ms b f) = Some f'"
        and "best_score f' \<le> fold max ws (best_score f)"
        and "best_score f' < beta f \<longrightarrow> best_score f' = fold max ws (best_score f)"
      by auto
    with res vc ws mx show ?thesis by simp
  qed
qed

lemma min_loop_sound:
  assumes paired: "push_pop_paired R"
    and total: "\<And>m. \<exists>v. plain_minimax R d (push R b m) True = Some v"
    and child: "\<And>m \<alpha> \<beta>. \<exists>sc mv vc.
           fst (minimax R d (push R b m) \<alpha> \<beta> True) = (Some sc, mv) \<and>
           plain_minimax R d (push R b m) True = Some vc \<and> sc \<le> vc \<and> (sc < \<beta> \<longrightarrow> sc = vc)"
    and inv: "beta f = best_score f"
  shows "\<exists>f' vs. fst (min_loop R d ms b f) = Some f' \<and>
           those (map (\<lambda>m. plain_minimax R d (push R b m) True) ms) = Some vs \<and>
           fold min vs (best_score f) \<le> best_score f' \<and>
           (alpha f < best_score f' \<longrightarrow> best_score f' = fold min vs (best_score f))"
  using inv
proof (induction ms arbitrary: f)
  case Nil
  show ?case by simp
next
  case (Cons move ms)
  from child [of move "alpha f" "beta f"] obtain sc mv vc
    where r: "fst (minimax R d (push R b move) (alpha f) (beta f) True) = (Some sc, mv)"
      and vc: "plain_minimax R d (push R b move) True = Some vc"
      and le: "sc \<le> vc" and exact: "sc < beta f \<Longrightarrow> sc = vc"
    by blast
  from search_keeps_board(1) [OF paired]
  have "snd (minimax R d (push R b move) (alpha f) (beta f) True) = push R b move" .
  with r have call: "minimax R d (push R b move) (alpha f) (beta f) True
      = ((Some sc, mv), push R b move)"
    by (simp add: prod_eq_iff)
  from paired have undone: "pop R (push R b move) = b"
    by (simp add: push_pop_paired_def)
  from those_map_total [of ms "\<lambda>m. plain_minimax R d (push R b m) True"] total
  obtain ws where ws: "those (map (\<lambda>m. plain_minimax R d (push R b m) True) ms) = Some ws"
    by blast
  let ?g = "f\<lparr>best_score := sc, best_move := Some move, beta := min (beta f) sc\<rparr>"
  show ?case
  proof (cases "sc < best_score f")
    case better: True
    with Cons.prems exact have sc: "sc = vc" by simp
    from better Cons.prems have g: "beta ?g = best_score ?g"
      by (auto simp: min_def)
    from better sc have mx: "min vc (best_score f) = sc"
      by (auto simp: min_def)
    show ?thesis
    proof (cases "beta ?g \<le> alpha ?g")
      case True
      with call undone better have res: "min_loop R d (move # ms) b f = (Some ?g, b)"
        by (simp add: Let_def)
      from True g have "\<not> alpha f < best_score ?g" by simp
      moreover have "fold min ws (min vc (best_score f)) \<le> best_score ?g"
        using fold_min_le [of ws sc] mx by simp
      ultimately show ?thesis
        using res vc ws by simp
    next
      case False
      with call undone better
      have res: "min_loop R d (move # ms) b f = min_loop R d ms b ?g"
        by (simp add: Let_def)
      from Cons.IH [OF g] ws obtain f'
        where "fst (min_loop R d ms b ?g) = Some f'"
          and "fold min ws (best_score ?g) \<le> best_score f'"
          and "alpha ?g < best_score f' \<longrightarrow> best_score f' = fold min ws (best_score ?g)"
        by auto
      with res vc ws mx show ?thesis by simp
    qed
  next
    case False
    with le have mx: "min vc (best_score f) = best_score f"
      by (auto simp: min_def)
    from False call undone
    have res: "min_loop R d (move # ms) b f = min_loop R d ms b f"
      by (simp add: Let_def)
    from Cons.IH [OF Cons.prems] ws obtain f'
      where "fst (min_loop R d ms b f) = Some f'"
        and "fold min ws (best_score f) \<le> best_score f'"
        and "alpha f < best_score f' \<longrightarrow> best_score f' = fold min ws (best_score f)"
      by auto
    with res vc ws mx show ?thesis by simp
  qed
qed


lemma search_sound:
  assumes reliable: "rules_reliable R" and paired: "push_pop_paired R"
  shows "\<exists>s mv v. fst (minimax R d b \<alpha> \<beta> mx) = (Some s, mv) \<and>
           plain_minimax R d b mx = Some v \<and>
           (if mx then s \<le> v \<and> (s < \<beta> \<longrightarrow> s = v) else v \<le> s \<and> (\<alpha> < s \<longrightarrow> s = v))"
proof (induction d arbitrary: b \<alpha> \<beta> mx)
  case 0
  show ?case by simp
next
  case (Suc d)
  from reliable_game_over [OF reliable] obtain g where g: "is_game_over R b = Some g"
    by blast
  show ?case
  proof (cases g)
    case True
    with g show ?thesis by simp
  next
    case False
    with reliable_legal_moves [OF reliable, of b] g
    obtain ms where ms: "legal_moves R b = Some ms"
      by auto
    show ?thesis
    proof (cases mx)
      case True
      let ?f = "\<lparr>alpha = MInf, beta = \<beta>, best_score = MInf, best_move = None\<rparr> :: 'b frame"
      have "\<exists>sc mv vc. fst (minimax R d (push R b m) \<alpha>' \<beta>' False) = (Some sc, mv) \<and>
              plain_minimax R d (push R b m) False = Some vc \<and> vc \<le> sc \<and> (\<alpha>' < sc \<longrightarrow> sc = vc)"
        for m \<alpha>' \<beta>'
        using Suc.IH [of "push R b m" \<alpha>' \<beta>' False] by simp
      from max_loop_sound [OF paired plain_minimax_total [OF reliable] this, of ?f ms]
      obtain f' vs where "fst (max_loop R d ms b ?f) = Some f'"
        and "those (map (\<lambda>m. plain_minimax R d (push R b m) False) ms) = Some vs"
        and "best_score f' \<le> fold max vs MInf"
        and "best_score f' < \<beta> \<longrightarrow> best_score f' = fold max vs MInf"
        by auto
      with g False ms True show ?thesis
        by (cases "max_loop R d ms b ?f") auto
    next
      case mn: False
      let ?f = "\<lparr>alpha = \<alpha>, beta = PInf, best_score = PInf, best_move = None\<rparr> :: 'b frame"
      have "\<exists>sc mv vc. fst (minimax R d (push R b m) \<alpha>' \<beta>' True) = (Some sc, mv) \<and>
              plain_minimax R d (push R b m) True = Some vc \<and> sc \<le> vc \<and> (sc < \<beta>' \<longrightarrow> sc = vc)"
        for m \<alpha>' \<beta>'
        using Suc.IH [of "push R b m" \<alpha>' \<beta>' True] by simp
      from min_loop_sound [OF paired plain_minimax_total [OF reliable] this, of ?f ms]
      obtain f' vs where "fst (min_loop R d ms b ?f) = Some f'"
        and "those (map (\<lambda>m. plain_minimax R d (push R b m) True) ms) = Some vs"
        and "fold min vs PInf \<le> best_score f'"
        and "\<alpha> < best_score f' \<longrightarrow> best_score f' = fold min vs PInf"
        by auto
      with g False ms mn show ?thesis
        by (cases "min_loop R d ms b ?f") auto
    qed
  qed
qed

text \<open>
  With black to move the window is \<open>(-inf, inf)\<close>, every score is finite, and the search
  returns exactly the score of brute-force minimax, at every depth.
\<close>

theorem black_search_is_plain_minimax:
  assumes "rules_reliable R" and "push_pop_paired R" and "turn b = Black"
  shows "fst (fst (search R b d)) = plain_minimax R d b True"
proof -
  from assms(3) have s: "search R b d = minimax R d b MInf PInf True"
    by (simp add: search_def initial_window_def)
  from search_sound [OF assms(1,2), of d b MInf PInf True]
  obtain sc mv v where r: "fst (minimax R d b MInf PInf True) = (Some sc, mv)"
    and v: "plain_minimax R d b True = Some v" and "sc < PInf \<longrightarrow> sc = v"
    by auto
  moreover from reliable_search_finite(1) [OF assms(1), of d b MInf PInf True] r
  have "sc < PInf" by auto
  ultimately show ?thesis
    using s by simp
qed

text \<open>Kings and pawns, black to move, depth 1: both return 9, the capture on e4.\<close>

theorem black_search_is_plain_minimax_witness:
  "rules_reliable (table_rules chess_table) \<and> push_pop_paired (table_rules chess_table) \<and>
   turn kp_black = Black \<and>
   fst (fst (search (table_rules chess_table) kp_black 1)) = Some (Fin 9) \<and>
   plain_minimax (table_rules chess_table) 1 kp_black True = Some (Fin 9)"
proof -
  have t: "turn kp_black = Black"
    by (simp add: kp_black_def)
  have "plain_minimax (table_rules chess_table) 1 kp_black True = Some (Fin 9)"
    by code_simp
  with black_search_is_plain_minimax [OF table_rules_reliable table_rules_paired t, of 1]
    table_rules_reliable table_rules_paired t
  show ?thesis by simp
qed

text \<open>
  Claim C1 at a position with white to move. Kings and pawns, depth 1: the search, as
  \<open>find_best_move\<close> calls it, returns 0, the score of the first move; brute-force
  minimax of the same depth returns -9, the score of the capture on d5.
\<close>

theorem white_search_differs_from_plain_minimax:
  "fst (find_best_move (table_rules chess_table) kp_white 1) = (Some (Fin 0), Some (4, 13)) \<and>
   fst (fst (search (table_rules chess_table) kp_white 1)) = Some (Fin 0) \<and>
   plain_minimax (table_rules chess_table) 1 kp_white False = Some (Fin (- 9))"
  by code_simp

end
